theory Spec2Isabelle
  imports Complex_Main "HOL-Library.AList"
begin

section \<open>The read-through cache of \<open>server/services/cacheService.ts\<close>\<close>

text \<open>
  The cache service is a class with three private fields (the map \<open>pendingRequests\<close> and
  the two counters of \<open>stats\<close>) in front of a Redis connection that the module
  \<open>redisClient\<close> wraps. Its methods are \<open>async\<close>: the code between two \<open>await\<close>s runs
  without interruption on the single JavaScript thread, and at every \<open>await\<close> other calls
  may run. The model keeps exactly this granularity. Every stretch of code between two
  suspension points is one function on the state, and a schedule is a list of events,
  each of which resumes one suspended computation.
\<close>

subsection \<open>Values, promises and fetchers\<close>

text \<open>
  A settled promise either holds a value or an error. The only errors that reach a
  caller come from a fetcher, so a rejection carries the fetcher's error message.
\<close>

datatype 'v outcome = Resolved 'v | Rejected string

text \<open>
  \<open>fetchFunction: () => Promise<T>\<close>. A fetcher is identified by a number, so that two
  different functions can be told apart in the log of invocations, and carries what a
  call of it does: it returns a promise, which settles to an outcome, as its type says
  and as every fetcher passed in \<open>routes.ts\<close> does; or the call itself throws, which
  the type does not exclude. A fetcher that never settles is a fetcher whose settlement
  is never scheduled.
\<close>

datatype 'v conduct = Throws string | Settles "'v outcome"

record 'v fetcher =
  fetcher_id :: nat
  conduct :: "'v conduct"

text \<open>
  \<open>asynchronous\<close>: the call returns a promise. \<open>settles\<close>: what someone who awaits the
  call receives; inside an \<open>async\<close> function an exception thrown by the call is a
  rejection for whoever awaits that function.
\<close>

definition asynchronous :: "'v fetcher \<Rightarrow> bool" where
  "asynchronous f = (case conduct f of Throws e \<Rightarrow> False | Settles out \<Rightarrow> True)"

definition settles :: "'v fetcher \<Rightarrow> 'v outcome" where
  "settles f = (case conduct f of Throws e \<Rightarrow> Rejected e | Settles out \<Rightarrow> out)"

text \<open>
  \<open>JSON.stringify\<close> and \<open>JSON.parse\<close> are built into the language and are parameters of
  the model. \<open>stringify v = None\<close> stands for a call that yields no string: it throws
  (a cyclic structure, a BigInt) or returns \<open>undefined\<close>, on which the next line's
  \<open>stringValue.length\<close> throws. \<open>parse s = None\<close> stands for a \<open>SyntaxError\<close>.
  A string is a list of characters, one per UTF-16 code unit, so that \<open>length\<close> is the
  \<open>.length\<close> of the source.
\<close>

record 'v codec =
  stringify :: "'v \<Rightarrow> string option"
  parse :: "string \<Rightarrow> 'v option"

subsection \<open>The key-value backend\<close>

text \<open>The error of a rejected backend command. The service catches and logs it.\<close>

datatype cache_error = RedisError

text \<open>
  Modelled from the spec: the Key-Value Backend (the Redis server behind the ioredis
  connection) is not part of the sources. The spec gives its contract: read a key,
  write a key with a time to live, delete keys, list the keys matching a pattern, flush,
  all of which may fail. An entry is a key with its serialized value and the instant at
  which it expires; \<open>now\<close> is the backend's clock in seconds; \<open>failing\<close> says that
  commands are currently rejected.
\<close>

record redis =
  entries :: "(string \<times> string \<times> nat) list"
  now :: nat
  failing :: bool

definition redis_lookup :: "redis \<Rightarrow> string \<Rightarrow> string option" where
  "redis_lookup r k =
     (case map_of (entries r) k of
        None \<Rightarrow> None
      | Some (s, expiry) \<Rightarrow> if now r < expiry then Some s else None)"

definition redis_get :: "redis \<Rightarrow> string \<Rightarrow> cache_error + string option" where
  "redis_get r k = (if failing r then Inl RedisError else Inr (redis_lookup r k))"

definition redis_setex :: "redis \<Rightarrow> string \<Rightarrow> nat \<Rightarrow> string \<Rightarrow> cache_error + redis" where
  "redis_setex r k ttl s =
     (if failing r then Inl RedisError
      else Inr (r\<lparr>entries := AList.update k (s, now r + ttl) (entries r)\<rparr>))"

text \<open>
  The pattern language belongs to the backend; \<open>matches pattern key\<close> is a parameter.
  Only keys that have not expired are listed.
\<close>

definition redis_keys ::
  "(string \<Rightarrow> string \<Rightarrow> bool) \<Rightarrow> redis \<Rightarrow> string \<Rightarrow> cache_error + string list" where
  "redis_keys matches r pattern =
     (if failing r then Inl RedisError
      else Inr (filter (\<lambda>k. redis_lookup r k \<noteq> None \<and> matches pattern k)
                  (map fst (entries r))))"

definition redis_del :: "redis \<Rightarrow> string list \<Rightarrow> cache_error + redis" where
  "redis_del r ks =
     (if failing r then Inl RedisError
      else Inr (r\<lparr>entries := filter (\<lambda>e. fst e \<notin> set ks) (entries r)\<rparr>))"

definition redis_flushall :: "redis \<Rightarrow> cache_error + redis" where
  "redis_flushall r = (if failing r then Inl RedisError else Inr (r\<lparr>entries := []\<rparr>))"

text \<open>
  Modelled from the spec: the backend's matching of glob-style patterns is not part of
  the sources. This matcher knows \<open>*\<close> (any run of characters) and \<open>?\<close> (any one
  character) and is used where a concrete pattern is evaluated.
\<close>

fun glob_match :: "string \<Rightarrow> string \<Rightarrow> bool" where
  "glob_match [] [] = True"
| "glob_match [] (c # cs) = False"
| "glob_match (p # ps) [] = (p = CHR ''*'' \<and> glob_match ps [])"
| "glob_match (p # ps) (c # cs) =
     (if p = CHR ''*'' then glob_match ps (c # cs) \<or> glob_match (p # ps) cs
      else (p = CHR ''?'' \<or> p = c) \<and> glob_match ps cs)"

subsection \<open>The wrapper \<open>RedisClient\<close>\<close>

text \<open>
  The class \<open>RedisClient\<close>: the connection object (absent when Redis is not configured or
  after the retries are used up) and the flag that the \<open>connect\<close>, \<open>error\<close> and
  \<open>close\<close> handlers maintain.
\<close>

record redisClient =
  client :: "redis option"
  isConnected :: bool

definition getClient :: "redisClient \<Rightarrow> redis option" where
  "getClient rc = (if isConnected rc then client rc else None)"

definition isAvailable :: "redisClient \<Rightarrow> bool" where
  "isAvailable rc \<longleftrightarrow> isConnected rc \<and> client rc \<noteq> None"

text \<open>
  The commands as the service sees them, on the connection object it obtained from
  \<open>getClient\<close>: a command on a connection that is gone is rejected.
\<close>

definition client_get :: "redisClient \<Rightarrow> string \<Rightarrow> cache_error + string option" where
  "client_get rc k = (case client rc of None \<Rightarrow> Inl RedisError | Some r \<Rightarrow> redis_get r k)"

definition client_setex :: "redisClient \<Rightarrow> string \<Rightarrow> nat \<Rightarrow> string \<Rightarrow> cache_error + redisClient" where
  "client_setex rc k ttl s =
     (case client rc of
        None \<Rightarrow> Inl RedisError
      | Some r \<Rightarrow> (case redis_setex r k ttl s of
                    Inl e \<Rightarrow> Inl e
                  | Inr r' \<Rightarrow> Inr (rc\<lparr>client := Some r'\<rparr>)))"

definition client_del :: "redisClient \<Rightarrow> string list \<Rightarrow> cache_error + redisClient" where
  "client_del rc ks =
     (case client rc of
        None \<Rightarrow> Inl RedisError
      | Some r \<Rightarrow> (case redis_del r ks of
                    Inl e \<Rightarrow> Inl e
                  | Inr r' \<Rightarrow> Inr (rc\<lparr>client := Some r'\<rparr>)))"

definition client_keys ::
  "(string \<Rightarrow> string \<Rightarrow> bool) \<Rightarrow> redisClient \<Rightarrow> string \<Rightarrow> cache_error + string list" where
  "client_keys matches rc pattern =
     (case client rc of None \<Rightarrow> Inl RedisError | Some r \<Rightarrow> redis_keys matches r pattern)"

definition client_flushall :: "redisClient \<Rightarrow> cache_error + redisClient" where
  "client_flushall rc =
     (case client rc of
        None \<Rightarrow> Inl RedisError
      | Some r \<Rightarrow> (case redis_flushall r of
                    Inl e \<Rightarrow> Inl e
                  | Inr r' \<Rightarrow> Inr (rc\<lparr>client := Some r'\<rparr>)))"

subsection \<open>The state of the service\<close>

text \<open>
  Besides the fields of the class the state records, for the statements below, every
  invocation of a fetcher and every call of \<open>get\<close>. An invocation is either the body of
  a \<open>requestPromise\<close> (line 42: fetch, then \<open>set\<close>, then remove the registry entry) or a
  plain \<open>return fetchFunction()\<close> (lines 20 and 61). A promise is identified by the
  position of its invocation in \<open>fetches\<close>. The two counters are JavaScript numbers,
  which count exactly up to \<open>2^53\<close>; here they are natural numbers.
\<close>

datatype 'v phase =
    Fetching
  | Storing 'v string
  | Settled "'v outcome"

record 'v fetch =
  f_key :: string
  f_fetcher :: "'v fetcher"
  f_ttl :: nat
  f_registered :: bool
  f_phase :: "'v phase"

datatype 'v returned = Value 'v | Promise nat

datatype 'v get_status = Reading | Returned "'v returned"

record 'v get_call =
  g_key :: string
  g_fetcher :: "'v fetcher"
  g_ttl :: nat
  g_status :: "'v get_status"

record 'v world =
  redisClient :: redisClient
  pendingRequests :: "(string \<times> nat) list"
  hits :: nat
  misses :: nat
  gets :: "'v get_call list"
  fetches :: "'v fetch list"

definition MAX_OBJECT_SIZE :: nat where
  "MAX_OBJECT_SIZE = 1024 * 1024"

subsection \<open>\<open>get\<close>, one stretch of code at a time\<close>

text \<open>
  Calling \<open>fetchFunction()\<close>: the invocation is logged. Its promise is pending, unless
  the call threw: then the \<open>async\<close> function around the call is over, rejected.
\<close>

definition first_phase :: "'v fetcher \<Rightarrow> 'v phase" where
  "first_phase f = (case conduct f of Throws e \<Rightarrow> Settled (Rejected e) | Settles out \<Rightarrow> Fetching)"

definition invoke :: "string \<Rightarrow> 'v fetcher \<Rightarrow> nat \<Rightarrow> bool \<Rightarrow> 'v world \<Rightarrow> 'v world" where
  "invoke k f ttl registered w =
     w\<lparr>fetches := fetches w @
         [\<lparr>f_key = k, f_fetcher = f, f_ttl = ttl, f_registered = registered,
           f_phase = first_phase f\<rparr>]\<rparr>"

text \<open>
  Lines 16 to 25: without a usable client the call returns \<open>fetchFunction()\<close>; otherwise
  it sends the read and is suspended at \<open>await client.get(key)\<close>.
\<close>

definition get_enter :: "string \<Rightarrow> 'v fetcher \<Rightarrow> nat \<Rightarrow> 'v world \<Rightarrow> 'v world" where
  "get_enter k f ttl w =
     (if getClient (redisClient w) = None \<or> \<not> isAvailable (redisClient w)
      then (invoke k f ttl False w)
             \<lparr>gets := gets w @
                [\<lparr>g_key = k, g_fetcher = f, g_ttl = ttl,
                  g_status = Returned (Promise (length (fetches w)))\<rparr>]\<rparr>
      else w\<lparr>gets := gets w @
                [\<lparr>g_key = k, g_fetcher = f, g_ttl = ttl, g_status = Reading\<rparr>]\<rparr>)"

definition return_to :: "nat \<Rightarrow> 'v returned \<Rightarrow> 'v world \<Rightarrow> 'v world" where
  "return_to c r w = w\<lparr>gets := (gets w)[c := (gets w ! c)\<lparr>g_status := Returned r\<rparr>]\<rparr>"

text \<open>Lines 58 to 62, the \<open>catch\<close> block: log, then \<open>return fetchFunction()\<close>.\<close>

definition get_catch :: "nat \<Rightarrow> 'v world \<Rightarrow> 'v world" where
  "get_catch c w =
     (let g = gets w ! c
      in return_to c (Promise (length (fetches w)))
           (invoke (g_key g) (g_fetcher g) (g_ttl g) False w))"

text \<open>
  Lines 42 to 53, the body of the request up to its first \<open>await\<close>: the fetcher is
  called. If the call throws, \<open>finally\<close> runs at once, before the promise of the request
  has been registered.
\<close>

definition request_start :: "string \<Rightarrow> 'v fetcher \<Rightarrow> nat \<Rightarrow> 'v world \<Rightarrow> 'v world" where
  "request_start k f ttl w =
     (let w1 = invoke k f ttl True w
      in if asynchronous f then w1
         else w1\<lparr>pendingRequests := AList.delete k (pendingRequests w1)\<rparr>)"

text \<open>
  Lines 32 to 56: count the miss; return the pending promise of the key if there is
  one; otherwise start the request, register its promise and return it.
\<close>

definition get_miss :: "nat \<Rightarrow> 'v world \<Rightarrow> 'v world" where
  "get_miss c w =
     (let g = gets w ! c;
          w1 = w\<lparr>misses := misses w + 1\<rparr>
      in case map_of (pendingRequests w1) (g_key g) of
           Some p \<Rightarrow> return_to c (Promise p) w1
         | None \<Rightarrow>
             (let j = length (fetches w1);
                  w2 = request_start (g_key g) (g_fetcher g) (g_ttl g) w1;
                  w3 = w2\<lparr>pendingRequests := AList.update (g_key g) j (pendingRequests w2)\<rparr>
              in return_to c (Promise j) w3))"

text \<open>
  Lines 25 to 30, resumed with the reply to the read. A rejected read goes to the
  \<open>catch\<close> block. \<open>if (cachedValue)\<close> holds for a non-empty string; then the hit is
  counted before \<open>JSON.parse\<close> runs, and a \<open>SyntaxError\<close> goes to the \<open>catch\<close> block.
\<close>

definition get_resume :: "'v codec \<Rightarrow> nat \<Rightarrow> 'v world \<Rightarrow> 'v world" where
  "get_resume cd c w =
     (case client_get (redisClient w) (g_key (gets w ! c)) of
        Inl e \<Rightarrow> get_catch c w
      | Inr None \<Rightarrow> get_miss c w
      | Inr (Some cachedValue) \<Rightarrow>
          if cachedValue \<noteq> [] then
            (let w1 = w\<lparr>hits := hits w + 1\<rparr>
             in case parse cd cachedValue of
                  Some v \<Rightarrow> return_to c (Value v) w1
                | None \<Rightarrow> get_catch c w1)
          else get_miss c w)"

subsection \<open>\<open>set\<close>\<close>

text \<open>
  Lines 69 to 79, up to the write: \<open>None\<close> when \<open>set\<close> returns without writing (no usable
  client, no string from \<open>JSON.stringify\<close> and so the \<open>catch\<close> block, or a string over the
  limit), \<open>Some s\<close> when it goes on to \<open>await client.setex(key, ttl, s)\<close>.
\<close>

definition set_enter :: "'v codec \<Rightarrow> redisClient \<Rightarrow> 'v \<Rightarrow> string option" where
  "set_enter cd rc v =
     (if getClient rc = None \<or> \<not> isAvailable rc then None
      else case stringify cd v of
             None \<Rightarrow> None
           | Some stringValue \<Rightarrow>
               if length stringValue > MAX_OBJECT_SIZE then None else Some stringValue)"

text \<open>Lines 81 to 84: the write; a rejected write is caught and logged.\<close>

definition set_write :: "redisClient \<Rightarrow> string \<Rightarrow> nat \<Rightarrow> string \<Rightarrow> redisClient" where
  "set_write rc k ttl s = (case client_setex rc k ttl s of Inl e \<Rightarrow> rc | Inr rc' \<Rightarrow> rc')"

text \<open>
  A call of \<open>set\<close> awaited with nothing else running in between. The first component
  is what the promise of the call settles to.
\<close>

definition set_op ::
  "'v codec \<Rightarrow> string \<Rightarrow> 'v \<Rightarrow> nat \<Rightarrow> redisClient \<Rightarrow> unit outcome \<times> redisClient" where
  "set_op cd k v ttl rc =
     (case set_enter cd rc v of
        None \<Rightarrow> (Resolved (), rc)
      | Some s \<Rightarrow> (Resolved (), set_write rc k ttl s))"

subsection \<open>The request promise\<close>

definition settle :: "nat \<Rightarrow> 'v outcome \<Rightarrow> 'v world \<Rightarrow> 'v world" where
  "settle j out w = w\<lparr>fetches := (fetches w)[j := (fetches w ! j)\<lparr>f_phase := Settled out\<rparr>]\<rparr>"

text \<open>Lines 50 to 52: \<open>finally\<close> removes the key from the registry, then the promise settles.\<close>

definition request_finally :: "nat \<Rightarrow> 'v outcome \<Rightarrow> 'v world \<Rightarrow> 'v world" where
  "request_finally j out w =
     settle j out
       (w\<lparr>pendingRequests := AList.delete (f_key (fetches w ! j)) (pendingRequests w)\<rparr>)"

text \<open>
  Resumed when the fetcher's promise settles. A plain \<open>return fetchFunction()\<close> hands the
  outcome on. In a request (lines 44 to 52) a rejection goes straight to \<open>finally\<close>; a
  value goes to \<open>set\<close>, and the request is suspended again if \<open>set\<close> writes. If
  \<open>set\<close> returns without writing, nothing is waited for between the fetcher's
  settlement and \<open>finally\<close>, and the two are one step.
\<close>

definition request_resume :: "'v codec \<Rightarrow> nat \<Rightarrow> 'v world \<Rightarrow> 'v world" where
  "request_resume cd j w =
     (let i = fetches w ! j
      in if \<not> f_registered i then settle j (settles (f_fetcher i)) w
         else case settles (f_fetcher i) of
                Rejected e \<Rightarrow> request_finally j (Rejected e) w
              | Resolved data \<Rightarrow>
                  (case set_enter cd (redisClient w) data of
                     None \<Rightarrow> request_finally j (Resolved data) w
                   | Some s \<Rightarrow>
                       w\<lparr>fetches := (fetches w)[j := i\<lparr>f_phase := Storing data s\<rparr>]\<rparr>))"

text \<open>Resumed with the reply to the write: \<open>return data\<close>, through \<open>finally\<close>.\<close>

definition request_finish :: "nat \<Rightarrow> 'v \<Rightarrow> string \<Rightarrow> 'v world \<Rightarrow> 'v world" where
  "request_finish j data s w =
     (let i = fetches w ! j
      in request_finally j (Resolved data)
           (w\<lparr>redisClient := set_write (redisClient w) (f_key i) (f_ttl i) s\<rparr>))"

subsection \<open>Events and schedules\<close>

text \<open>
  An event is a call of \<open>get\<close>, the arrival of a reply or a settlement that resumes one
  suspended computation, or a change of the backend from outside (time passing, other
  writers, the connection going down or coming up). An event that has nothing to resume
  is not enabled.
\<close>

datatype 'v event =
    Get string "'v fetcher" nat
  | ReadReply nat
  | FetchSettled nat
  | WriteReply nat
  | Env "redisClient \<Rightarrow> redisClient"

fun step :: "'v codec \<Rightarrow> 'v event \<Rightarrow> 'v world \<Rightarrow> 'v world option" where
  "step cd (Get k f ttl) w = Some (get_enter k f ttl w)"
| "step cd (ReadReply c) w =
     (if c < length (gets w) \<and> g_status (gets w ! c) = Reading
      then Some (get_resume cd c w) else None)"
| "step cd (FetchSettled j) w =
     (if j < length (fetches w) \<and> f_phase (fetches w ! j) = Fetching
      then Some (request_resume cd j w) else None)"
| "step cd (WriteReply j) w =
     (if j < length (fetches w)
      then (case f_phase (fetches w ! j) of
              Storing data s \<Rightarrow> Some (request_finish j data s w)
            | _ \<Rightarrow> None)
      else None)"
| "step cd (Env g) w = Some (w\<lparr>redisClient := g (redisClient w)\<rparr>)"

fun run :: "'v codec \<Rightarrow> 'v event list \<Rightarrow> 'v world \<Rightarrow> 'v world option" where
  "run cd [] w = Some w"
| "run cd (e # es) w = (case step cd e w of None \<Rightarrow> None | Some w' \<Rightarrow> run cd es w')"

text \<open>What the caller of the \<open>c\<close>-th call has received, if anything yet.\<close>

definition get_result :: "'v world \<Rightarrow> nat \<Rightarrow> 'v outcome option" where
  "get_result w c =
     (if c < length (gets w) then
        (case g_status (gets w ! c) of
           Reading \<Rightarrow> None
         | Returned (Value v) \<Rightarrow> Some (Resolved v)
         | Returned (Promise j) \<Rightarrow>
             (if j < length (fetches w) then
                (case f_phase (fetches w ! j) of Settled out \<Rightarrow> Some out | _ \<Rightarrow> None)
              else None))
      else None)"

subsection \<open>Awaiting one call\<close>

text \<open>
  \<open>await cacheService.get(key, fetchFunction, ttl)\<close> with nothing else running in
  between: the call, the reply to its read, and then the promise it returned is left to
  settle (the fetcher's settlement and, if \<open>set\<close> writes, the reply to the write).
  The result is what the caller receives and the state afterwards; \<open>None\<close> if the call
  cannot finish this way.
\<close>

definition settle_request :: "'v codec \<Rightarrow> nat \<Rightarrow> 'v world \<Rightarrow> 'v world option" where
  "settle_request cd j w =
     (if j < length (fetches w) then
        (case f_phase (fetches w ! j) of
           Fetching \<Rightarrow>
             (case step cd (FetchSettled j) w of
                None \<Rightarrow> None
              | Some w1 \<Rightarrow>
                  (case f_phase (fetches w1 ! j) of
                     Storing data s \<Rightarrow> step cd (WriteReply j) w1
                   | _ \<Rightarrow> Some w1))
         | Storing data s \<Rightarrow> step cd (WriteReply j) w
         | Settled out \<Rightarrow> Some w)
      else None)"

definition await_get ::
  "'v codec \<Rightarrow> string \<Rightarrow> 'v fetcher \<Rightarrow> nat \<Rightarrow> 'v world \<Rightarrow> ('v outcome \<times> 'v world) option" where
  "await_get cd k f ttl w =
     (let c = length (gets w);
          w1 = get_enter k f ttl w
      in case (if g_status (gets w1 ! c) = Reading then step cd (ReadReply c) w1 else Some w1) of
           None \<Rightarrow> None
         | Some w2 \<Rightarrow>
             (case g_status (gets w2 ! c) of
                Reading \<Rightarrow> None
              | Returned (Value v) \<Rightarrow> Some (Resolved v, w2)
              | Returned (Promise j) \<Rightarrow>
                  (case settle_request cd j w2 of
                     None \<Rightarrow> None
                   | Some w3 \<Rightarrow>
                       (case get_result w3 c of
                          None \<Rightarrow> None
                        | Some out \<Rightarrow> Some (out, w3)))))"

subsection \<open>\<open>delete\<close>, \<open>deletePattern\<close>, \<open>flushAll\<close>, \<open>getStats\<close>\<close>

text \<open>
  Each of these is awaited with nothing else running in between. They touch the backend
  only; the first component is what the promise of the call settles to. A rejected
  command is caught and logged.
\<close>

definition delete_op :: "string \<Rightarrow> redisClient \<Rightarrow> unit outcome \<times> redisClient" where
  "delete_op k rc =
     (if getClient rc = None \<or> \<not> isAvailable rc then (Resolved (), rc)
      else case client_del rc [k] of
             Inl e \<Rightarrow> (Resolved (), rc)
           | Inr rc' \<Rightarrow> (Resolved (), rc'))"

definition deletePattern ::
  "(string \<Rightarrow> string \<Rightarrow> bool) \<Rightarrow> string \<Rightarrow> redisClient \<Rightarrow> unit outcome \<times> redisClient" where
  "deletePattern matches pattern rc =
     (if getClient rc = None \<or> \<not> isAvailable rc then (Resolved (), rc)
      else case client_keys matches rc pattern of
             Inl e \<Rightarrow> (Resolved (), rc)
           | Inr keys \<Rightarrow>
               if length keys > 0 then
                 (case client_del rc keys of
                    Inl e \<Rightarrow> (Resolved (), rc)
                  | Inr rc' \<Rightarrow> (Resolved (), rc'))
               else (Resolved (), rc))"

definition invalidate :: "string \<Rightarrow> redisClient \<Rightarrow> unit outcome \<times> redisClient" where
  "invalidate k rc = delete_op k rc"

definition flushAll :: "redisClient \<Rightarrow> unit outcome \<times> redisClient" where
  "flushAll rc =
     (if getClient rc = None \<or> \<not> isAvailable rc then (Resolved (), rc)
      else case client_flushall rc of
             Inl e \<Rightarrow> (Resolved (), rc)
           | Inr rc' \<Rightarrow> (Resolved (), rc'))"



subsection \<open>A state to start from and a small codec\<close>

definition fresh :: "redisClient \<Rightarrow> 'v world" where
  "fresh rc = \<lparr>redisClient = rc, pendingRequests = [], hits = 0, misses = 0,
               gets = [], fetches = []\<rparr>"

definition online :: "redis \<Rightarrow> redisClient" where
  "online r = \<lparr>client = Some r, isConnected = True\<rparr>"

definition elapse :: "nat \<Rightarrow> redisClient \<Rightarrow> redisClient" where
  "elapse d rc = rc\<lparr>client := map_option (\<lambda>r. r\<lparr>now := now r + d\<rparr>) (client rc)\<rparr>"

text \<open>
  Two kinds of JavaScript values with their JSON text, for concrete runs: \<open>null\<close>, and
  strings made of printable ASCII characters other than the double quote and the
  backslash, which JSON writes as they are between two double quotes. On these values
  and their texts the codec below is \<open>JSON.stringify\<close> and \<open>JSON.parse\<close>. It is not
  meant for other strings, and it takes every other text as unreadable. The theorems
  below hold for every codec; this one only serves to run them.
\<close>

datatype json = JNull | JStr string

definition plain :: "char \<Rightarrow> bool" where
  "plain ch \<longleftrightarrow> ch \<noteq> CHR 0x22 \<and> ch \<noteq> CHR 0x5C \<and> (32::nat) \<le> of_char ch \<and> of_char ch < (127::nat)"

definition json_stringify :: "json \<Rightarrow> string option" where
  "json_stringify v =
     (case v of
        JNull \<Rightarrow> Some ''null''
      | JStr s \<Rightarrow> if list_all plain s then Some (CHR 0x22 # s @ [CHR 0x22]) else None)"

definition json_parse :: "string \<Rightarrow> json option" where
  "json_parse t =
     (if t = ''null'' then Some JNull
      else if 2 \<le> length t \<and> hd t = CHR 0x22 \<and> last t = CHR 0x22
              \<and> list_all plain (butlast (tl t))
           then Some (JStr (butlast (tl t)))
           else None)"

definition json_codec :: "json codec" where
  "json_codec = \<lparr>stringify = json_stringify, parse = json_parse\<rparr>"

subsection \<open>Conditions on a state, and states for concrete runs\<close>

text \<open>
  \<open>serving rc r\<close>: the connection is up, \<open>r\<close> is the backend behind it and accepts
  commands. \<open>uncached r k\<close>: a read of \<open>k\<close> finds nothing that \<open>if (cachedValue)\<close>
  accepts.
\<close>

definition serving :: "redisClient \<Rightarrow> redis \<Rightarrow> bool" where
  "serving rc r \<longleftrightarrow> isConnected rc \<and> client rc = Some r \<and> \<not> failing r"

definition uncached :: "redis \<Rightarrow> string \<Rightarrow> bool" where
  "uncached r k \<longleftrightarrow> redis_lookup r k = None \<or> redis_lookup r k = Some []"

definition r_empty :: redis where
  "r_empty = \<lparr>entries = [], now = 0, failing = False\<rparr>"

definition w_empty :: "json world" where
  "w_empty = fresh (online r_empty)"

definition f_data :: "json fetcher" where
  "f_data = \<lparr>fetcher_id = 1, conduct = Settles (Resolved (JStr ''data''))\<rparr>"

definition f_other :: "json fetcher" where
  "f_other = \<lparr>fetcher_id = 2, conduct = Settles (Resolved (JStr ''other''))\<rparr>"

definition f_null :: "json fetcher" where
  "f_null = \<lparr>fetcher_id = 3, conduct = Settles (Resolved JNull)\<rparr>"

definition f_fail :: "json fetcher" where
  "f_fail = \<lparr>fetcher_id = 4, conduct = Settles (Rejected ''database down'')\<rparr>"

definition f_throw :: "json fetcher" where
  "f_throw = \<lparr>fetcher_id = 5, conduct = Throws ''no such user''\<rparr>"

definition w_down :: "json world" where
  "w_down = fresh \<lparr>client = Some r_empty, isConnected = False\<rparr>"

definition r_stale :: redis where
  "r_stale = \<lparr>entries = [(''test:size'', [CHR 0x22, CHR ''o'', CHR ''l'', CHR ''d'', CHR 0x22], 3600)],
              now = 0, failing = False\<rparr>"

definition v_large :: json where
  "v_large = JStr (replicate (1024 * 1024 + 100) CHR ''x'')"

definition s_large :: string where
  "s_large = CHR 0x22 # replicate (1024 * 1024 + 100) CHR ''x'' @ [CHR 0x22]"

definition r_abc :: redis where
  "r_abc = \<lparr>entries = [(''a:1'', ''null'', 3600), (''a:2'', ''null'', 3600),
                        (''b:1'', [CHR 0x22, CHR ''d'', CHR ''a'', CHR ''t'', CHR ''a'', CHR 0x22], 3600)],
            now = 0, failing = False\<rparr>"

definition w_abc :: "json world" where
  "w_abc = fresh (snd (deletePattern glob_match ''a:*'' (online r_abc)))"

definition r_corrupt :: redis where
  "r_corrupt = \<lparr>entries = [(''event:1'', ''{broken'', 3600)], now = 0, failing = False\<rparr>"

subsection \<open>Sequences of awaited operations\<close>












subsection \<open>Calls that arrive while a fetch is in flight\<close>



definition caller :: "string \<Rightarrow> 'v fetcher \<Rightarrow> nat \<Rightarrow> 'v get_status \<Rightarrow> 'v get_call" where
  "caller k f ttl st = \<lparr>g_key = k, g_fetcher = f, g_ttl = ttl, g_status = st\<rparr>"

definition request :: "string \<Rightarrow> 'v fetcher \<Rightarrow> nat \<Rightarrow> 'v phase \<Rightarrow> 'v fetch" where
  "request k f ttl ph =
     \<lparr>f_key = k, f_fetcher = f, f_ttl = ttl, f_registered = True, f_phase = ph\<rparr>"





subsection \<open>The registry and the requests in flight\<close>

text \<open>
  A request is in flight from the call of the fetcher until its promise settles; it is
  storing while it waits for the reply to the write of \<open>set\<close>. \<open>reg_inv\<close> relates the
  registry to the log of invocations: the keys of the registry are distinct, every entry
  points to a request in flight for its key, every request in flight is the entry of its
  key, and only requests are ever storing. \<open>registry_inv\<close> is this relation in a state
  whose calls all came with fetchers that return a promise.
\<close>

definition in_flight :: "'v fetch \<Rightarrow> bool" where
  "in_flight i \<longleftrightarrow> f_registered i \<and> (case f_phase i of Settled out \<Rightarrow> False | _ \<Rightarrow> True)"

definition storing :: "'v fetch \<Rightarrow> bool" where
  "storing i = (case f_phase i of Storing data s \<Rightarrow> True | _ \<Rightarrow> False)"

definition reg_inv :: "(string \<times> nat) list \<Rightarrow> 'v fetch list \<Rightarrow> bool" where
  "reg_inv P F \<longleftrightarrow>
     distinct (map fst P)
     \<and> (\<forall>k j. map_of P k = Some j \<longrightarrow> j < length F \<and> f_key (F ! j) = k \<and> in_flight (F ! j))
     \<and> (\<forall>j. j < length F \<and> in_flight (F ! j) \<longrightarrow> map_of P (f_key (F ! j)) = Some j)
     \<and> (\<forall>j. j < length F \<and> storing (F ! j) \<longrightarrow> f_registered (F ! j))"

definition registry_inv :: "'v world \<Rightarrow> bool" where
  "registry_inv w \<longleftrightarrow>
     reg_inv (pendingRequests w) (fetches w)
     \<and> list_all (\<lambda>g. asynchronous (g_fetcher g)) (gets w)"

text \<open>The event is not a call of \<open>get\<close> with a fetcher that throws from the call.\<close>

definition well_behaved :: "'v event \<Rightarrow> bool" where
  "well_behaved e = (case e of Get k f ttl \<Rightarrow> asynchronous f | _ \<Rightarrow> True)"

definition w_wait :: "json world" where
  "w_wait =
     \<lparr>redisClient = online r_empty, pendingRequests = [(''event:1'', 0)], hits = 0, misses = 1,
      gets = [\<lparr>g_key = ''event:1'', g_fetcher = f_data, g_ttl = 1800,
               g_status = Returned (Promise 0)\<rparr>],
      fetches = [\<lparr>f_key = ''event:1'', f_fetcher = f_data, f_ttl = 1800, f_registered = True,
                  f_phase = Fetching\<rparr>]\<rparr>"

definition w_store :: "json world" where
  "w_store =
     w_wait\<lparr>fetches :=
       [\<lparr>f_key = ''event:1'', f_fetcher = f_data, f_ttl = 1800, f_registered = True,
         f_phase = Storing (JStr ''data'')
                     [CHR 0x22, CHR ''d'', CHR ''a'', CHR ''t'', CHR ''a'', CHR 0x22]\<rparr>]\<rparr>"

section \<open>Properties\<close>

subsection \<open>One awaited call: the hit and the miss\<close>

lemmas svc_defs = get_enter_def get_resume_def get_miss_def get_catch_def return_to_def invoke_def
  request_start_def request_resume_def request_finish_def request_finally_def settle_def
  set_enter_def set_write_def getClient_def isAvailable_def

lemmas fetcher_defs = settles_def asynchronous_def first_phase_def

lemmas run_defs = fresh_def online_def svc_defs client_get_def redis_get_def redis_lookup_def
  client_setex_def redis_setex_def json_codec_def json_stringify_def json_parse_def plain_def
  MAX_OBJECT_SIZE_def

lemma delete_update_fresh:
  "map_of al k = None \<Longrightarrow> AList.delete k (AList.update k v al) = al"
  by (simp add: AList.delete_update_same map_of_eq_None_iff)

lemma await_get_hit:
  assumes "serving (redisClient w) r" "redis_lookup r k = Some s" "s \<noteq> []" "parse cd s = Some v"
  shows "await_get cd k f ttl w =
           Some (Resolved v,
                 w\<lparr>hits := hits w + 1,
                   gets := gets w @ [\<lparr>g_key = k, g_fetcher = f, g_ttl = ttl,
                                      g_status = Returned (Value v)\<rparr>]\<rparr>)"
  using assms
  by (simp add: await_get_def serving_def svc_defs client_get_def redis_get_def Let_def)


lemma await_get_miss:
  assumes "serving (redisClient w) r" "uncached r k" "map_of (pendingRequests w) k = None"
    and "asynchronous f"
  shows "await_get cd k f ttl w =
           Some (settles f,
                 w\<lparr>redisClient := (case settles f of
                                     Resolved data \<Rightarrow> snd (set_op cd k data ttl (redisClient w))
                                   | Rejected e \<Rightarrow> redisClient w),
                   misses := misses w + 1,
                   gets := gets w @ [\<lparr>g_key = k, g_fetcher = f, g_ttl = ttl,
                                      g_status = Returned (Promise (length (fetches w)))\<rparr>],
                   fetches := fetches w @ [\<lparr>f_key = k, f_fetcher = f, f_ttl = ttl,
                                            f_registered = True,
                                            f_phase = Settled (settles f)\<rparr>]\<rparr>)"
proof -
  obtain out where c: "conduct f = Settles out"
    using assms(4) by (auto simp add: asynchronous_def split: conduct.splits)
  show ?thesis
    using assms(1-3) c
    by (cases out)
      (auto simp add: await_get_def serving_def uncached_def svc_defs client_get_def
        redis_get_def Let_def settle_request_def get_result_def set_op_def
        delete_update_fresh fetcher_defs split: option.splits)
qed

text \<open>Whatever the fetcher does, a miss with no pending request invokes it once.\<close>

lemma await_get_miss_log:
  assumes "serving (redisClient w) r" "uncached r k" "map_of (pendingRequests w) k = None"
  shows "(case await_get cd k f ttl w of
            None \<Rightarrow> False
          | Some (out, w') \<Rightarrow>
              out = settles f
              \<and> fetches w' = fetches w @
                   [\<lparr>f_key = k, f_fetcher = f, f_ttl = ttl, f_registered = True,
                     f_phase = Settled (settles f)\<rparr>])"
proof (cases "conduct f")
  case (Throws e)
  then show ?thesis
    using assms
    by (auto simp add: await_get_def serving_def uncached_def svc_defs client_get_def
        redis_get_def Let_def settle_request_def get_result_def fetcher_defs)
next
  case (Settles out)
  then have "asynchronous f" by (simp add: asynchronous_def)
  then show ?thesis
    by (simp add: await_get_miss [OF assms])
qed

lemma set_op_writes:
  assumes "serving rc r" "stringify cd v = Some s" "length s \<le> MAX_OBJECT_SIZE"
  shows "set_op cd k v ttl rc =
           (Resolved (),
            rc\<lparr>client := Some (r\<lparr>entries := AList.update k (s, now r + ttl) (entries r)\<rparr>)\<rparr>)"
  using assms
  by (simp add: set_op_def set_enter_def set_write_def client_setex_def redis_setex_def
      serving_def getClient_def isAvailable_def)

lemma set_op_skips:
  assumes "stringify cd v = Some s" "length s > MAX_OBJECT_SIZE"
  shows "set_op cd k v ttl rc = (Resolved (), rc)"
  using assms
  by (simp add: set_op_def set_enter_def)

lemma lookup_after_write:
  "redis_lookup (r\<lparr>entries := AList.update k (s, e) (entries r), now := t\<rparr>) k' =
     (if k' = k then (if t < e then Some s else None) else redis_lookup (r\<lparr>now := t\<rparr>) k')"
  by (simp add: redis_lookup_def AList.update_conv' split: option.splits)

subsection \<open>Read-through\<close>



subsection \<open>The backend is down or was never configured\<close>

text \<open>
  C4. Without a usable client (\<open>getClient\<close> gives nothing or \<open>isAvailable\<close> is false) an
  awaited \<open>get\<close> returns, and what the caller receives is what the fetcher's promise
  settles to: the only rejection is the fetcher's own. The fetcher is invoked once, as a
  plain call, and the backend is left as it was. In the same state \<open>set\<close>, \<open>delete\<close>,
  \<open>deletePattern\<close> and \<open>flushAll\<close> resolve and change nothing.
\<close>

theorem unavailable_backend_fails_open:
  assumes "getClient (redisClient w) = None \<or> \<not> isAvailable (redisClient w)"
  shows "(case await_get cd k f ttl w of
            None \<Rightarrow> False
          | Some (out, w') \<Rightarrow>
              out = settles f \<and> redisClient w' = redisClient w
              \<and> fetches w' = fetches w @
                    [\<lparr>f_key = k, f_fetcher = f, f_ttl = ttl, f_registered = False,
                      f_phase = Settled (settles f)\<rparr>])
         \<and> set_op cd k v ttl (redisClient w) = (Resolved (), redisClient w)
         \<and> delete_op k (redisClient w) = (Resolved (), redisClient w)
         \<and> deletePattern matches pattern (redisClient w) = (Resolved (), redisClient w)
         \<and> flushAll (redisClient w) = (Resolved (), redisClient w)"
  using assms
  by (cases "conduct f")
    (auto simp add: await_get_def settle_request_def get_result_def svc_defs set_op_def
      delete_op_def deletePattern_def flushAll_def Let_def fetcher_defs)

theorem unavailable_backend_fails_open_witness:
  "getClient (redisClient w_down) = None
   \<and> (case await_get json_codec ''event:1'' f_fail 1800 w_down of
            None \<Rightarrow> False
          | Some (out, w') \<Rightarrow>
              out = settles f_fail \<and> redisClient w' = redisClient w_down
              \<and> fetches w' = fetches w_down @
                    [\<lparr>f_key = ''event:1'', f_fetcher = f_fail, f_ttl = 1800, f_registered = False,
                      f_phase = Settled (settles f_fail)\<rparr>])
   \<and> set_op json_codec ''event:1'' JNull 1800 (redisClient w_down) = (Resolved (), redisClient w_down)
   \<and> delete_op ''event:1'' (redisClient w_down) = (Resolved (), redisClient w_down)
   \<and> deletePattern glob_match ''events:list*'' (redisClient w_down) = (Resolved (), redisClient w_down)
   \<and> flushAll (redisClient w_down) = (Resolved (), redisClient w_down)"
  using unavailable_backend_fails_open
    [where w = w_down and cd = json_codec and k = "''event:1''" and f = f_fail and ttl = 1800
      and v = JNull and matches = glob_match and pattern = "''events:list*''"]
  by (simp add: w_down_def fresh_def getClient_def)

text \<open>
  C10. Without a usable client an awaited \<open>get\<close> leaves the hit counter, the miss counter
  and the registry as they were and invokes the fetcher once. Two calls on the same key
  that are in flight together each invoke their own fetcher and each receive their own
  fetcher's outcome: nothing is shared.
\<close>

theorem fallback_skips_counters_and_registry:
  assumes "getClient (redisClient w) = None \<or> \<not> isAvailable (redisClient w)"
  shows "(case await_get cd k f ttl w of
            None \<Rightarrow> False
          | Some (out, w1) \<Rightarrow>
              hits w1 = hits w \<and> misses w1 = misses w
              \<and> pendingRequests w1 = pendingRequests w
              \<and> length (fetches w1) = length (fetches w) + 1)
         \<and> (case run cd [Get k f ttl, Get k f' ttl'] w of
               None \<Rightarrow> False
             | Some w2 \<Rightarrow>
                 hits w2 = hits w \<and> misses w2 = misses w
                 \<and> pendingRequests w2 = pendingRequests w
                 \<and> g_status (gets w2 ! length (gets w))
                     = Returned (Promise (length (fetches w)))
                 \<and> g_status (gets w2 ! (length (gets w) + 1))
                     = Returned (Promise (length (fetches w) + 1))
                 \<and> fetches w2 = fetches w @
                      [\<lparr>f_key = k, f_fetcher = f, f_ttl = ttl, f_registered = False,
                        f_phase = first_phase f\<rparr>,
                       \<lparr>f_key = k, f_fetcher = f', f_ttl = ttl', f_registered = False,
                        f_phase = first_phase f'\<rparr>]
                 \<and> (case settle_request cd (length (fetches w) + 1) w2 of
                       None \<Rightarrow> False
                     | Some w3 \<Rightarrow>
                         (case settle_request cd (length (fetches w)) w3 of
                            None \<Rightarrow> False
                          | Some w4 \<Rightarrow>
                              hits w4 = hits w \<and> misses w4 = misses w
                              \<and> pendingRequests w4 = pendingRequests w
                              \<and> length (fetches w4) = length (fetches w) + 2
                              \<and> get_result w4 (length (gets w)) = Some (settles f)
                              \<and> get_result w4 (length (gets w) + 1) = Some (settles f'))))"
  using assms
  by (cases "conduct f"; cases "conduct f'")
    (auto simp add: await_get_def settle_request_def get_result_def svc_defs Let_def nth_append
      list_update_append fetcher_defs)

theorem fallback_skips_counters_and_registry_witness:
  "getClient (redisClient w_down) = None
   \<and> (case await_get json_codec ''event:1'' f_data 1800 w_down of
            None \<Rightarrow> False
          | Some (out, w1) \<Rightarrow>
              hits w1 = hits w_down \<and> misses w1 = misses w_down
              \<and> pendingRequests w1 = pendingRequests w_down
              \<and> length (fetches w1) = length (fetches w_down) + 1)
   \<and> (case run json_codec [Get ''event:1'' f_data 1800, Get ''event:1'' f_other 1800] w_down of
               None \<Rightarrow> False
             | Some w2 \<Rightarrow>
                 hits w2 = hits w_down \<and> misses w2 = misses w_down
                 \<and> pendingRequests w2 = pendingRequests w_down
                 \<and> g_status (gets w2 ! length (gets w_down))
                     = Returned (Promise (length (fetches w_down)))
                 \<and> g_status (gets w2 ! (length (gets w_down) + 1))
                     = Returned (Promise (length (fetches w_down) + 1))
                 \<and> fetches w2 = fetches w_down @
                      [\<lparr>f_key = ''event:1'', f_fetcher = f_data, f_ttl = 1800,
                        f_registered = False, f_phase = first_phase f_data\<rparr>,
                       \<lparr>f_key = ''event:1'', f_fetcher = f_other, f_ttl = 1800,
                        f_registered = False, f_phase = first_phase f_other\<rparr>]
                 \<and> (case settle_request json_codec (length (fetches w_down) + 1) w2 of
                       None \<Rightarrow> False
                     | Some w3 \<Rightarrow>
                         (case settle_request json_codec (length (fetches w_down)) w3 of
                            None \<Rightarrow> False
                          | Some w4 \<Rightarrow>
                              hits w4 = hits w_down \<and> misses w4 = misses w_down
                              \<and> pendingRequests w4 = pendingRequests w_down
                              \<and> length (fetches w4) = length (fetches w_down) + 2
                              \<and> get_result w4 (length (gets w_down)) = Some (settles f_data)
                              \<and> get_result w4 (length (gets w_down) + 1)
                                  = Some (settles f_other))))
   \<and> settles f_data = Resolved (JStr ''data'') \<and> settles f_other = Resolved (JStr ''other'')"
  using fallback_skips_counters_and_registry
    [where w = w_down and cd = json_codec and k = "''event:1''" and f = f_data and ttl = 1800
      and f' = f_other and ttl' = 1800]
  by (simp add: w_down_def fresh_def getClient_def f_data_def f_other_def settles_def)

subsection \<open>The size limit of \<open>set\<close>\<close>

lemma stringify_large: "stringify json_codec v_large = Some s_large"
  by (simp add: json_codec_def json_stringify_def v_large_def s_large_def list_all_iff plain_def)

lemma length_large: "MAX_OBJECT_SIZE < length s_large"
  by (simp add: s_large_def MAX_OBJECT_SIZE_def)

text \<open>
  C6, as stated, fails where the key is already cached: \<open>set\<close> with a value over the
  limit writes nothing, so the entry stored before stays, and the next \<open>get\<close> is served
  from it without invoking its fetcher. Here \<open>test:size\<close> holds the text of the string
  \<open>old\<close> and the value is the string of \<open>1024 * 1024 + 100\<close> letters of the repository's
  test.
\<close>

theorem oversized_set_keeps_stale_entry:
  "stringify json_codec v_large = Some s_large
   \<and> MAX_OBJECT_SIZE < length s_large
   \<and> set_op json_codec ''test:size'' v_large 3600 (online r_stale) = (Resolved (), online r_stale)
   \<and> map_option fst (await_get json_codec ''test:size'' f_data 3600 (fresh (online r_stale)))
       = Some (Resolved (JStr ''old''))
   \<and> map_option (fetches \<circ> snd) (await_get json_codec ''test:size'' f_data 3600 (fresh (online r_stale)))
       = Some []"
proof -
  have srv: "serving (redisClient (fresh (online r_stale) :: json world)) r_stale"
    by (simp add: serving_def fresh_def online_def r_stale_def)
  have look: "redis_lookup r_stale ''test:size'' = Some [CHR 0x22, CHR ''o'', CHR ''l'', CHR ''d'', CHR 0x22]"
    by (simp add: redis_lookup_def r_stale_def)
  have prs: "parse json_codec [CHR 0x22, CHR ''o'', CHR ''l'', CHR ''d'', CHR 0x22] = Some (JStr ''old'')"
    by (simp add: json_codec_def json_parse_def plain_def)
  have hit: "await_get json_codec ''test:size'' f_data 3600 (fresh (online r_stale)) =
      Some (Resolved (JStr ''old''),
            (fresh (online r_stale))
              \<lparr>hits := hits (fresh (online r_stale) :: json world) + 1,
                gets := gets (fresh (online r_stale)) @
                  [\<lparr>g_key = ''test:size'', g_fetcher = f_data, g_ttl = 3600,
                    g_status = Returned (Value (JStr ''old''))\<rparr>]\<rparr>)"
    by (rule await_get_hit [OF srv look _ prs]) simp
  show ?thesis
    apply (simp only: hit set_op_skips [OF stringify_large length_large] stringify_large)
    apply (simp add: length_large fresh_def)
    done
qed

text \<open>
  C6, amended. With the backend serving and a value whose text is \<open>s\<close>: \<open>set\<close> resolves;
  if \<open>s\<close> is longer than \<open>MAX_OBJECT_SIZE\<close> the backend is left exactly as it was, and a
  following \<open>get\<close> of the key invokes its fetcher provided the key was not cached before;
  if \<open>s\<close> is within the limit the entry is written with the given time to live.
\<close>

theorem oversized_set_leaves_backend_unchanged:
  assumes "serving rc r" and "stringify cd v = Some s"
  shows "fst (set_op cd k v ttl rc) = Resolved ()
         \<and> (MAX_OBJECT_SIZE < length s \<longrightarrow>
              snd (set_op cd k v ttl rc) = rc
              \<and> (uncached r k \<and> redisClient w = rc \<and> map_of (pendingRequests w) k = None \<longrightarrow>
                   (case await_get cd k f ttl' w of
                      None \<Rightarrow> False
                    | Some (out, w') \<Rightarrow>
                        out = settles f
                        \<and> fetches w' = fetches w @
                             [\<lparr>f_key = k, f_fetcher = f, f_ttl = ttl', f_registered = True,
                               f_phase = Settled (settles f)\<rparr>])))
         \<and> (length s \<le> MAX_OBJECT_SIZE \<longrightarrow>
              snd (set_op cd k v ttl rc)
                = rc\<lparr>client := Some (r\<lparr>entries := AList.update k (s, now r + ttl) (entries r)\<rparr>)\<rparr>)"
proof (intro conjI impI)
  show "fst (set_op cd k v ttl rc) = Resolved ()"
    by (simp add: set_op_def split: option.splits)
next
  assume "MAX_OBJECT_SIZE < length s"
  then show "snd (set_op cd k v ttl rc) = rc"
    by (simp add: set_op_skips [OF assms(2)])
next
  assume "uncached r k \<and> redisClient w = rc \<and> map_of (pendingRequests w) k = None"
  then have "serving (redisClient w) r" "uncached r k" "map_of (pendingRequests w) k = None"
    using assms(1) by simp_all
  then show "case await_get cd k f ttl' w of
      None \<Rightarrow> False
    | Some (out, w') \<Rightarrow>
        out = settles f
        \<and> fetches w' = fetches w @
             [\<lparr>f_key = k, f_fetcher = f, f_ttl = ttl', f_registered = True,
               f_phase = Settled (settles f)\<rparr>]"
    by (rule await_get_miss_log)
next
  assume "length s \<le> MAX_OBJECT_SIZE"
  then show "snd (set_op cd k v ttl rc)
                = rc\<lparr>client := Some (r\<lparr>entries := AList.update k (s, now r + ttl) (entries r)\<rparr>)\<rparr>"
    by (simp add: set_op_writes [OF assms])
qed

theorem oversized_set_leaves_backend_unchanged_witness:
  "serving (online r_empty) r_empty
   \<and> stringify json_codec v_large = Some s_large
   \<and> MAX_OBJECT_SIZE < length s_large
   \<and> uncached r_empty ''test:size''
   \<and> redisClient w_empty = online r_empty
   \<and> map_of (pendingRequests w_empty) ''test:size'' = None
   \<and> fst (set_op json_codec ''test:size'' v_large 3600 (online r_empty)) = Resolved ()
   \<and> snd (set_op json_codec ''test:size'' v_large 3600 (online r_empty)) = online r_empty
   \<and> (case await_get json_codec ''test:size'' f_data 3600 w_empty of
         None \<Rightarrow> False
       | Some (out, w') \<Rightarrow>
           out = settles f_data
           \<and> fetches w' = fetches w_empty @
                [\<lparr>f_key = ''test:size'', f_fetcher = f_data, f_ttl = 3600, f_registered = True,
                  f_phase = Settled (settles f_data)\<rparr>])
   \<and> stringify json_codec JNull = Some ''null''
   \<and> length ''null'' \<le> MAX_OBJECT_SIZE
   \<and> snd (set_op json_codec ''test:size'' JNull 300 (online r_empty))
       = (online r_empty)\<lparr>client := Some (r_empty\<lparr>entries :=
            AList.update ''test:size'' (''null'', now r_empty + 300) (entries r_empty)\<rparr>)\<rparr>"
proof -
  have srv: "serving (online r_empty) r_empty"
    by (simp add: serving_def online_def r_empty_def)
  have small: "stringify json_codec JNull = Some ''null''" "length ''null'' \<le> MAX_OBJECT_SIZE"
    by (simp_all add: json_codec_def json_stringify_def MAX_OBJECT_SIZE_def)
  have pre: "uncached r_empty ''test:size'' \<and> redisClient w_empty = online r_empty
             \<and> map_of (pendingRequests w_empty) ''test:size'' = None"
    by (simp add: uncached_def redis_lookup_def r_empty_def w_empty_def fresh_def)
  show ?thesis
    using srv pre stringify_large length_large small
      oversized_set_leaves_backend_unchanged
        [OF srv stringify_large, where k = "''test:size''" and ttl = 3600 and w = w_empty
          and f = f_data and ttl' = 3600]
      oversized_set_leaves_backend_unchanged
        [OF srv small(1), where k = "''test:size''" and ttl = 300]
    by simp
qed

subsection \<open>Invalidation by pattern\<close>

lemma map_of_filter_fst:
  "map_of (filter (\<lambda>e. P (fst e)) al) k = (if P k then map_of al k else None)"
  by (simp add: map_of_filter restrict_map_def)

lemma lookup_live_in_entries:
  "redis_lookup r k \<noteq> None \<Longrightarrow> k \<in> set (map fst (entries r))"
  by (auto simp add: redis_lookup_def split: option.splits dest: map_of_SomeD)
     (metis fst_conv image_eqI map_of_SomeD)

lemma lookup_after_del:
  "redis_lookup (r\<lparr>entries := filter (\<lambda>e. fst e \<notin> set ks) (entries r)\<rparr>) k =
     (if k \<in> set ks then None else redis_lookup r k)"
  using map_of_filter_fst [where P = "\<lambda>k. k \<notin> set ks" and al = "entries r" and k = k]
  by (simp add: redis_lookup_def split: option.splits)

lemma deletePattern_with_keys:
  assumes "serving rc r" and "client_keys matches rc pattern = Inr keys"
  shows "snd (deletePattern matches pattern rc) =
           (if keys = [] then rc
            else rc\<lparr>client := Some (r\<lparr>entries := filter (\<lambda>e. fst e \<notin> set keys) (entries r)\<rparr>)\<rparr>)"
  using assms
  by (simp add: deletePattern_def serving_def getClient_def isAvailable_def client_del_def
      redis_del_def)

lemma deletePattern_serving:
  assumes "serving rc r"
  shows "\<exists>r'. serving (snd (deletePattern matches pattern rc)) r'
           \<and> (\<forall>k. redis_lookup r' k = (if matches pattern k then None else redis_lookup r k))"
proof -
  let ?keys = "filter (\<lambda>k. redis_lookup r k \<noteq> None \<and> matches pattern k) (map fst (entries r))"
  let ?r' = "r\<lparr>entries := filter (\<lambda>e. fst e \<notin> set ?keys) (entries r)\<rparr>"
  from assms have c: "client rc = Some r" and nf: "\<not> failing r"
    by (simp_all add: serving_def)
  have ck: "client_keys matches rc pattern = Inr ?keys"
    unfolding client_keys_def redis_keys_def c using nf by simp
  note after = deletePattern_with_keys [OF assms ck]
  have mem: "k \<in> set ?keys \<longleftrightarrow> redis_lookup r k \<noteq> None \<and> matches pattern k" for k
    using lookup_live_in_entries [of r k] by auto
  have look: "redis_lookup ?r' k = (if matches pattern k then None else redis_lookup r k)" for k
  proof -
    have "redis_lookup ?r' k = (if k \<in> set ?keys then None else redis_lookup r k)"
      by (rule lookup_after_del)
    then show ?thesis
      using mem [of k] by (cases "redis_lookup r k") simp_all
  qed
  show ?thesis
  proof (cases "?keys = []")
    case True
    then have same: "snd (deletePattern matches pattern rc) = rc"
      using after by simp
    have "redis_lookup r k = (if matches pattern k then None else redis_lookup r k)" for k
    proof -
      have "\<not> (redis_lookup r k \<noteq> None \<and> matches pattern k)"
        using mem [of k] unfolding True by simp
      then show ?thesis by auto
    qed
    then show ?thesis using assms same by auto
  next
    case False
    then have "snd (deletePattern matches pattern rc) = rc\<lparr>client := Some ?r'\<rparr>"
      using after by simp
    moreover have "serving (rc\<lparr>client := Some ?r'\<rparr>) ?r'"
      using assms by (simp add: serving_def)
    ultimately show ?thesis using look by auto
  qed
qed

lemma deletePattern_resolves: "fst (deletePattern matches pattern rc) = Resolved ()"
  by (simp add: deletePattern_def split: sum.splits)

text \<open>
  C7. With the backend serving, \<open>deletePattern\<close> resolves, and in the state it leaves a
  read of a key that matches the pattern finds nothing while a read of any other key
  finds what it found before. So a \<open>get\<close> on a matching key invokes its fetcher, and a
  \<open>get\<close> on a key that does not match and is cached returns the cached value and
  invokes nothing.
\<close>

theorem deletePattern_removes_matching_keys:
  assumes "serving rc r" and "redisClient w = snd (deletePattern matches pattern rc)"
  shows "fst (deletePattern matches pattern rc) = Resolved ()
         \<and> client_get (redisClient w) k
             = (if matches pattern k then Inr None else client_get rc k)
         \<and> (matches pattern k \<and> map_of (pendingRequests w) k = None \<longrightarrow>
              (case await_get cd k f ttl w of
                 None \<Rightarrow> False
               | Some (out, w') \<Rightarrow>
                   out = settles f
                   \<and> fetches w' = fetches w @
                        [\<lparr>f_key = k, f_fetcher = f, f_ttl = ttl, f_registered = True,
                          f_phase = Settled (settles f)\<rparr>]))
         \<and> (\<not> matches pattern k \<and> redis_lookup r k = Some s \<and> s \<noteq> [] \<and> parse cd s = Some v \<longrightarrow>
              (case await_get cd k f ttl w of
                 None \<Rightarrow> False
               | Some (out, w') \<Rightarrow> out = Resolved v \<and> fetches w' = fetches w))"
proof -
  obtain r' where srv: "serving (redisClient w) r'"
    and look: "\<And>k. redis_lookup r' k = (if matches pattern k then None else redis_lookup r k)"
    using deletePattern_serving [OF assms(1), of matches pattern] assms(2) by auto
  have rd: "client_get (redisClient w) k = (if matches pattern k then Inr None else client_get rc k)"
    using srv assms(1) look [of k] by (simp add: client_get_def redis_get_def serving_def)
  have miss: "case await_get cd k f ttl w of
                 None \<Rightarrow> False
               | Some (out, w') \<Rightarrow>
                   out = settles f
                   \<and> fetches w' = fetches w @
                        [\<lparr>f_key = k, f_fetcher = f, f_ttl = ttl, f_registered = True,
                          f_phase = Settled (settles f)\<rparr>]"
    if "matches pattern k" "map_of (pendingRequests w) k = None"
  proof -
    have "uncached r' k" using look [of k] that(1) by (simp add: uncached_def)
    then show ?thesis by (rule await_get_miss_log [OF srv _ that(2)])
  qed
  have hit: "case await_get cd k f ttl w of
                 None \<Rightarrow> False
               | Some (out, w') \<Rightarrow> out = Resolved v \<and> fetches w' = fetches w"
    if "\<not> matches pattern k" "redis_lookup r k = Some s" "s \<noteq> []" "parse cd s = Some v"
  proof -
    have "redis_lookup r' k = Some s" using look [of k] that(1,2) by simp
    then show ?thesis by (simp add: await_get_hit [OF srv _ that(3,4)])
  qed
  show ?thesis
    using rd miss hit by (simp add: deletePattern_resolves)
qed

text \<open>The keys \<open>a:1\<close>, \<open>a:2\<close> and \<open>b:1\<close> with the pattern \<open>a:*\<close>.\<close>

theorem deletePattern_removes_matching_keys_witness:
  "serving (online r_abc) r_abc
   \<and> redisClient w_abc = snd (deletePattern glob_match ''a:*'' (online r_abc))
   \<and> glob_match ''a:*'' ''a:1'' \<and> glob_match ''a:*'' ''a:2'' \<and> \<not> glob_match ''a:*'' ''b:1''
   \<and> redis_lookup r_abc ''b:1'' = Some [CHR 0x22, CHR ''d'', CHR ''a'', CHR ''t'', CHR ''a'', CHR 0x22]
   \<and> parse json_codec [CHR 0x22, CHR ''d'', CHR ''a'', CHR ''t'', CHR ''a'', CHR 0x22] = Some (JStr ''data'')
   \<and> pendingRequests w_abc = []
   \<and> client_get (redisClient w_abc) ''a:1'' = Inr None
   \<and> client_get (redisClient w_abc) ''a:2'' = Inr None
   \<and> client_get (redisClient w_abc) ''b:1'' = client_get (online r_abc) ''b:1''
   \<and> (case await_get json_codec ''a:1'' f_other 3600 w_abc of
         None \<Rightarrow> False
       | Some (out, w') \<Rightarrow>
           out = settles f_other
           \<and> fetches w' = fetches w_abc @
                [\<lparr>f_key = ''a:1'', f_fetcher = f_other, f_ttl = 3600, f_registered = True,
                  f_phase = Settled (settles f_other)\<rparr>])
   \<and> (case await_get json_codec ''a:2'' f_other 3600 w_abc of
         None \<Rightarrow> False
       | Some (out, w') \<Rightarrow>
           out = settles f_other
           \<and> fetches w' = fetches w_abc @
                [\<lparr>f_key = ''a:2'', f_fetcher = f_other, f_ttl = 3600, f_registered = True,
                  f_phase = Settled (settles f_other)\<rparr>])
   \<and> (case await_get json_codec ''b:1'' f_other 3600 w_abc of
         None \<Rightarrow> False
       | Some (out, w') \<Rightarrow> out = Resolved (JStr ''data'') \<and> fetches w' = fetches w_abc)"
proof -
  have srv: "serving (online r_abc) r_abc"
    by (simp add: serving_def online_def r_abc_def)
  have rc: "redisClient w_abc = snd (deletePattern glob_match ''a:*'' (online r_abc))"
    by (simp add: w_abc_def fresh_def)
  have m: "glob_match ''a:*'' ''a:1''" "glob_match ''a:*'' ''a:2''" "\<not> glob_match ''a:*'' ''b:1''"
    by simp_all
  have look: "redis_lookup r_abc ''b:1'' = Some [CHR 0x22, CHR ''d'', CHR ''a'', CHR ''t'', CHR ''a'', CHR 0x22]"
    by (simp add: redis_lookup_def r_abc_def)
  have prs: "parse json_codec [CHR 0x22, CHR ''d'', CHR ''a'', CHR ''t'', CHR ''a'', CHR 0x22] = Some (JStr ''data'')"
    by (simp add: json_codec_def json_parse_def plain_def)
  have pend: "pendingRequests w_abc = []"
    by (simp add: w_abc_def fresh_def)
  note inst = deletePattern_removes_matching_keys [OF srv rc, where cd = json_codec and f = f_other and ttl = 3600]
  show ?thesis
    using srv rc m look prs pend
      inst [where k = "''a:1''"] inst [where k = "''a:2''"]
      inst [where k = "''b:1''" and s = "[CHR 0x22, CHR ''d'', CHR ''a'', CHR ''t'', CHR ''a'', CHR 0x22]"
             and v = "JStr ''data''"]
    by simp
qed

subsection \<open>A fetcher that resolves to \<open>null\<close>\<close>

text \<open>
  C8. \<open>null\<close> is the value whose text is \<open>null\<close> and that the text \<open>null\<close> reads back
  as. A \<open>get\<close> on an uncached key whose fetcher resolves to \<open>null\<close> returns \<open>null\<close>
  and stores the text (four characters: within the limit, and not empty, so a later read
  counts as a hit); a second \<open>get\<close> before the time to live has passed returns \<open>null\<close>
  from the cache and invokes nothing.
\<close>

theorem null_is_cached_like_any_value:
  assumes "serving (redisClient w) r" and "uncached r k" and "map_of (pendingRequests w) k = None"
    and "settles f = Resolved nul" and "stringify cd nul = Some ''null''"
    and "parse cd ''null'' = Some nul" and "d < ttl"
  shows "(case await_get cd k f ttl w of
            None \<Rightarrow> False
          | Some (out1, w1) \<Rightarrow>
              out1 = Resolved nul
              \<and> client_get (redisClient w1) k = Inr (Some ''null'')
              \<and> (case await_get cd k f2 ttl2 (w1\<lparr>redisClient := elapse d (redisClient w1)\<rparr>) of
                    None \<Rightarrow> False
                  | Some (out2, w2) \<Rightarrow> out2 = Resolved nul \<and> fetches w2 = fetches w1))"
proof -
  let ?r1 = "r\<lparr>entries := AList.update k (''null'', now r + ttl) (entries r)\<rparr>"
  let ?w1 = "w\<lparr>redisClient := (redisClient w)\<lparr>client := Some ?r1\<rparr>,
               misses := misses w + 1,
               gets := gets w @ [\<lparr>g_key = k, g_fetcher = f, g_ttl = ttl,
                                  g_status = Returned (Promise (length (fetches w)))\<rparr>],
               fetches := fetches w @ [\<lparr>f_key = k, f_fetcher = f, f_ttl = ttl,
                                        f_registered = True, f_phase = Settled (Resolved nul)\<rparr>]\<rparr>"
  have small: "length ''null'' \<le> MAX_OBJECT_SIZE"
    by (simp add: MAX_OBJECT_SIZE_def)
  have async: "asynchronous f"
    using assms(4) by (auto simp add: fetcher_defs split: conduct.splits)
  have first: "await_get cd k f ttl w = Some (Resolved nul, ?w1)"
    using await_get_miss [OF assms(1-3) async, of cd ttl] assms(4)
      set_op_writes [OF assms(1) assms(5) small, of k ttl]
    by simp
  have stored: "client_get (redisClient ?w1) k = Inr (Some ''null'')"
    using assms(1,7)
      lookup_after_write [where r = r and k = k and s = "''null''" and e = "now r + ttl"
        and t = "now r" and k' = k]
    by (simp add: client_get_def redis_get_def serving_def)
  let ?w1' = "?w1\<lparr>redisClient := elapse d (redisClient ?w1)\<rparr>"
  let ?r1' = "?r1\<lparr>now := now r + d\<rparr>"
  have srv: "serving (redisClient ?w1') ?r1'"
    using assms(1) by (simp add: serving_def elapse_def)
  have look: "redis_lookup ?r1' k = Some ''null''"
    using assms(7)
      lookup_after_write [where r = r and k = k and s = "''null''" and e = "now r + ttl"
        and t = "now r + d" and k' = k]
    by simp
  have second: "await_get cd k f2 ttl2 ?w1' =
      Some (Resolved nul, ?w1'\<lparr>hits := hits ?w1' + 1,
              gets := gets ?w1' @ [\<lparr>g_key = k, g_fetcher = f2, g_ttl = ttl2,
                                    g_status = Returned (Value nul)\<rparr>]\<rparr>)"
    by (rule await_get_hit [OF srv look _ assms(6)]) simp
  show ?thesis
    apply (simp only: first option.case prod.case second stored)
    apply simp
    done
qed

theorem null_is_cached_like_any_value_witness:
  "serving (redisClient w_empty) r_empty \<and> uncached r_empty ''event:9''
   \<and> map_of (pendingRequests w_empty) ''event:9'' = None
   \<and> settles f_null = Resolved JNull
   \<and> stringify json_codec JNull = Some ''null''
   \<and> parse json_codec ''null'' = Some JNull
   \<and> (case await_get json_codec ''event:9'' f_null 1800 w_empty of
         None \<Rightarrow> False
       | Some (out1, w1) \<Rightarrow>
           out1 = Resolved JNull
           \<and> client_get (redisClient w1) ''event:9'' = Inr (Some ''null'')
           \<and> (case await_get json_codec ''event:9'' f_other 1800
                      (w1\<lparr>redisClient := elapse 1799 (redisClient w1)\<rparr>) of
                None \<Rightarrow> False
              | Some (out2, w2) \<Rightarrow> out2 = Resolved JNull \<and> fetches w2 = fetches w1))"
proof -
  have h: "serving (redisClient w_empty) r_empty" "uncached r_empty ''event:9''"
    "map_of (pendingRequests w_empty) ''event:9'' = None" "settles f_null = Resolved JNull"
    "stringify json_codec JNull = Some ''null''" "parse json_codec ''null'' = Some JNull"
    "(1799::nat) < 1800"
    by (simp_all add: serving_def uncached_def w_empty_def r_empty_def fresh_def online_def
        redis_lookup_def f_null_def settles_def json_codec_def json_stringify_def
        json_parse_def)
  show ?thesis
    using h null_is_cached_like_any_value [OF h, where ?f2.0 = f_other and ?ttl2.0 = 1800]
    by simp
qed

subsection \<open>A stored text that cannot be read back\<close>

text \<open>
  C5, as stated, fails: a stored text on which \<open>JSON.parse\<close> throws does not take the
  path of a miss. With \<open>event:1\<close> holding \<open>{broken\<close>, after the reply to the read the
  fetcher has been called by the \<open>catch\<close> block as a plain call, the registry is empty
  while that call is in flight, and a hit has been counted; on an empty cache the same
  call is registered under its key and counted as a miss. When the call is over the
  backend still holds the unreadable text.
\<close>

theorem corrupt_entry_bypasses_registry:
  "parse json_codec ''{broken'' = None
   \<and> run json_codec [Get ''event:1'' f_data 1800, ReadReply 0] (fresh (online r_corrupt))
       = Some \<lparr>redisClient = online r_corrupt, pendingRequests = [], hits = 1, misses = 0,
               gets = [\<lparr>g_key = ''event:1'', g_fetcher = f_data, g_ttl = 1800,
                        g_status = Returned (Promise 0)\<rparr>],
               fetches = [\<lparr>f_key = ''event:1'', f_fetcher = f_data, f_ttl = 1800,
                           f_registered = False, f_phase = Fetching\<rparr>]\<rparr>
   \<and> run json_codec [Get ''event:1'' f_data 1800, ReadReply 0] (fresh (online r_empty))
       = Some \<lparr>redisClient = online r_empty, pendingRequests = [(''event:1'', 0)],
               hits = 0, misses = 1,
               gets = [\<lparr>g_key = ''event:1'', g_fetcher = f_data, g_ttl = 1800,
                        g_status = Returned (Promise 0)\<rparr>],
               fetches = [\<lparr>f_key = ''event:1'', f_fetcher = f_data, f_ttl = 1800,
                           f_registered = True, f_phase = Fetching\<rparr>]\<rparr>
   \<and> map_option (redisClient \<circ> snd)
         (await_get json_codec ''event:1'' f_data 1800 (fresh (online r_corrupt)))
       = Some (online r_corrupt)"
  by (simp add: json_codec_def json_parse_def fresh_def online_def r_corrupt_def r_empty_def
      svc_defs client_get_def redis_get_def redis_lookup_def await_get_def settle_request_def
      get_result_def f_data_def fetcher_defs)

text \<open>
  C5, amended. When the stored text of the key cannot be read back, the error does not
  reach the caller: the \<open>catch\<close> block calls the fetcher directly, and the caller
  receives what the fetcher's promise settles to. The registry and the backend are left
  as they were.
\<close>

theorem corrupt_entry_falls_back_to_fetcher:
  assumes "serving (redisClient w) r" and "redis_lookup r k = Some s" and "s \<noteq> []"
    and "parse cd s = None"
  shows "await_get cd k f ttl w =
           Some (settles f,
                 w\<lparr>hits := hits w + 1,
                   gets := gets w @ [\<lparr>g_key = k, g_fetcher = f, g_ttl = ttl,
                                      g_status = Returned (Promise (length (fetches w)))\<rparr>],
                   fetches := fetches w @ [\<lparr>f_key = k, f_fetcher = f, f_ttl = ttl,
                                            f_registered = False,
                                            f_phase = Settled (settles f)\<rparr>]\<rparr>)"
  using assms
  by (cases "conduct f")
    (simp_all add: await_get_def serving_def svc_defs client_get_def redis_get_def Let_def
      settle_request_def get_result_def fetcher_defs)

theorem corrupt_entry_falls_back_to_fetcher_witness:
  "serving (redisClient (fresh (online r_corrupt) :: json world)) r_corrupt
   \<and> redis_lookup r_corrupt ''event:1'' = Some ''{broken''
   \<and> parse json_codec ''{broken'' = None
   \<and> await_get json_codec ''event:1'' f_data 1800 (fresh (online r_corrupt)) =
           Some (settles f_data,
                 (fresh (online r_corrupt))
                 \<lparr>hits := hits (fresh (online r_corrupt) :: json world) + 1,
                   gets := gets (fresh (online r_corrupt) :: json world) @
                     [\<lparr>g_key = ''event:1'', g_fetcher = f_data, g_ttl = 1800,
                       g_status = Returned (Promise (length (fetches (fresh (online r_corrupt) :: json world))))\<rparr>],
                   fetches := fetches (fresh (online r_corrupt)  :: json world) @
                     [\<lparr>f_key = ''event:1'', f_fetcher = f_data, f_ttl = 1800,
                       f_registered = False, f_phase = Settled (settles f_data)\<rparr>]\<rparr>)"
proof -
  have h: "serving (redisClient (fresh (online r_corrupt) :: json world)) r_corrupt"
    "redis_lookup r_corrupt ''event:1'' = Some ''{broken''" "''{broken'' \<noteq> []"
    "parse json_codec ''{broken'' = None"
    by (simp_all add: serving_def fresh_def online_def r_corrupt_def redis_lookup_def
        json_codec_def json_parse_def)
  show ?thesis
    using h corrupt_entry_falls_back_to_fetcher [OF h, where f = f_data and ttl = 1800]
    by simp
qed

subsection \<open>Statistics\<close>

















subsection \<open>Stampede protection\<close>













subsection \<open>The in-flight registry\<close>

lemma reg_inv_empty: "reg_inv [] []"
  by (simp add: reg_inv_def)

lemma reg_inv_plain_call:
  assumes "reg_inv P F" and "\<not> f_registered i" and "\<not> storing i"
  shows "reg_inv P (F @ [i])"
  using assms
  by (auto simp add: reg_inv_def nth_append in_flight_def less_Suc_eq)

lemma reg_inv_register:
  assumes "reg_inv P F" and "map_of P k = None"
    and "f_registered i" and "f_phase i = Fetching" and "f_key i = k"
  shows "reg_inv (AList.update k (length F) P) (F @ [i])"
  unfolding reg_inv_def
proof (intro conjI allI impI)
  show "distinct (map fst (AList.update k (length F) P))"
    using assms(1) by (simp add: reg_inv_def AList.distinct_update)
next
  fix k' j
  assume a: "map_of (AList.update k (length F) P) k' = Some j"
  then consider (new) "k' = k" "j = length F" | (old) "k' \<noteq> k" "map_of P k' = Some j"
    by (auto simp add: AList.update_conv' split: if_splits)
  then have "j < length (F @ [i]) \<and> f_key ((F @ [i]) ! j) = k' \<and> in_flight ((F @ [i]) ! j)"
  proof cases
    case new
    then show ?thesis using assms(3-5) by (simp add: in_flight_def)
  next
    case old
    then have "j < length F" "f_key (F ! j) = k'" "in_flight (F ! j)"
      using assms(1) by (simp_all add: reg_inv_def)
    then show ?thesis by (simp add: nth_append)
  qed
  then show "j < length (F @ [i])" "f_key ((F @ [i]) ! j) = k'" "in_flight ((F @ [i]) ! j)"
    by simp_all
next
  fix j
  assume a: "j < length (F @ [i]) \<and> in_flight ((F @ [i]) ! j)"
  show "map_of (AList.update k (length F) P) (f_key ((F @ [i]) ! j)) = Some j"
  proof (cases "j < length F")
    case True
    then have "map_of P (f_key (F ! j)) = Some j"
      using a assms(1) by (simp add: reg_inv_def nth_append)
    then show ?thesis
      using True assms(2) by (auto simp add: AList.update_conv' nth_append)
  next
    case False
    then have "j = length F" using a by simp
    then show ?thesis using assms(5) by (simp add: AList.update_conv')
  qed
next
  fix j
  assume a: "j < length (F @ [i]) \<and> storing ((F @ [i]) ! j)"
  show "f_registered ((F @ [i]) ! j)"
    using a assms(1,3) by (auto simp add: reg_inv_def nth_append less_Suc_eq)
qed

lemma reg_inv_plain_settle:
  assumes "reg_inv P F" and "j < length F" and "\<not> f_registered (F ! j)"
  shows "reg_inv P (F[j := (F ! j)\<lparr>f_phase := Settled out\<rparr>])"
  using assms
  by (auto simp add: reg_inv_def nth_list_update in_flight_def storing_def)

lemma reg_inv_storing:
  assumes "reg_inv P F" and "j < length F" and "f_registered (F ! j)"
    and "f_phase (F ! j) = Fetching"
  shows "reg_inv P (F[j := (F ! j)\<lparr>f_phase := Storing data s\<rparr>])"
  using assms
  by (auto simp add: reg_inv_def nth_list_update in_flight_def storing_def)

lemma reg_inv_finally:
  assumes "reg_inv P F" and "j < length F" and "in_flight (F ! j)"
  shows "reg_inv (AList.delete (f_key (F ! j)) P) (F[j := (F ! j)\<lparr>f_phase := Settled out\<rparr>])"
  unfolding reg_inv_def
proof (intro conjI allI impI)
  let ?F = "F[j := (F ! j)\<lparr>f_phase := Settled out\<rparr>]"
  let ?P = "AList.delete (f_key (F ! j)) P"
  have own: "map_of P (f_key (F ! j)) = Some j"
    using assms by (simp add: reg_inv_def)
  show "distinct (map fst ?P)"
    using assms(1) by (simp add: reg_inv_def AList.distinct_delete)
  {
    fix k j'
    assume a: "map_of ?P k = Some j'"
    then have k: "k \<noteq> f_key (F ! j)" and old: "map_of P k = Some j'"
      by (auto simp add: AList.delete_conv' split: if_splits)
    from old assms(1) have j': "j' < length F" "f_key (F ! j') = k" "in_flight (F ! j')"
      by (simp_all add: reg_inv_def)
    then have ne: "j' \<noteq> j" using k by auto
    show "j' < length ?F" using j'(1) by simp
    show "f_key (?F ! j') = k" using j' ne by simp
    show "in_flight (?F ! j')" using j' ne by simp
  }
  {
    fix j'
    assume a: "j' < length ?F \<and> in_flight (?F ! j')"
    then have ne: "j' \<noteq> j"
      using assms(2) by (auto simp add: in_flight_def)
    then have inf: "j' < length F" "in_flight (F ! j')" using a by simp_all
    then have reg: "map_of P (f_key (F ! j')) = Some j'"
      using assms(1) by (simp add: reg_inv_def)
    have "f_key (F ! j') \<noteq> f_key (F ! j)"
      using reg own ne by auto
    then show "map_of ?P (f_key (?F ! j')) = Some j'"
      using reg ne by (simp add: AList.delete_conv')
  }
  {
    fix j'
    assume a: "j' < length ?F \<and> storing (?F ! j')"
    then show "f_registered (?F ! j')"
      using assms(1) by (cases "j' = j") (auto simp add: reg_inv_def storing_def)
  }
qed

lemma first_phase_not_storing:
  "\<not> storing \<lparr>f_key = k, f_fetcher = f, f_ttl = ttl, f_registered = reg, f_phase = first_phase f\<rparr>"
  by (simp add: storing_def first_phase_def split: conduct.splits)

lemma registry_inv_enter:
  "registry_inv w \<Longrightarrow> asynchronous f \<Longrightarrow> registry_inv (get_enter k f ttl w)"
  by (auto simp add: registry_inv_def get_enter_def invoke_def first_phase_not_storing
      intro: reg_inv_plain_call)

lemma registry_inv_return: "registry_inv (return_to c r w) = registry_inv w"
proof -
  have "list_all (\<lambda>g. asynchronous (g_fetcher g)) (xs[c := (xs ! c)\<lparr>g_status := st\<rparr>])
          = list_all (\<lambda>g. asynchronous (g_fetcher g)) xs" for xs :: "'a get_call list" and st
    by (cases "c < length xs") (auto simp add: list_all_length nth_list_update)
  then show ?thesis
    by (simp add: registry_inv_def return_to_def)
qed

lemma registry_inv_catch: "registry_inv w \<Longrightarrow> registry_inv (get_catch c w)"
proof -
  assume a: "registry_inv w"
  have "registry_inv (invoke k f ttl False w)" for k f ttl
    using a
    by (auto simp add: registry_inv_def invoke_def first_phase_not_storing
        intro: reg_inv_plain_call)
  then show ?thesis
    by (simp add: get_catch_def Let_def registry_inv_return)
qed

lemma registry_inv_miss:
  assumes "registry_inv w" and "c < length (gets w)"
  shows "registry_inv (get_miss c w)"
proof -
  let ?g = "gets w ! c"
  have async: "asynchronous (g_fetcher ?g)"
    using assms by (simp add: registry_inv_def list_all_length)
  let ?w1 = "w\<lparr>misses := misses w + 1\<rparr>"
  have w1: "registry_inv ?w1" using assms(1) by (simp add: registry_inv_def)
  show ?thesis
  proof (cases "map_of (pendingRequests w) (g_key ?g)")
    case (Some p)
    then show ?thesis
      using w1 by (simp add: get_miss_def Let_def registry_inv_return)
  next
    case None
    let ?i = "\<lparr>f_key = g_key ?g, f_fetcher = g_fetcher ?g, f_ttl = g_ttl ?g,
               f_registered = True, f_phase = Fetching\<rparr>"
    have "reg_inv (AList.update (g_key ?g) (length (fetches w)) (pendingRequests w))
            (fetches w @ [?i])"
      using assms(1) None by (intro reg_inv_register) (simp_all add: registry_inv_def)
    then have "registry_inv
        ((request_start (g_key ?g) (g_fetcher ?g) (g_ttl ?g) ?w1)
           \<lparr>pendingRequests := AList.update (g_key ?g) (length (fetches w)) (pendingRequests w)\<rparr>)"
      using async assms(1)
      by (simp add: registry_inv_def request_start_def invoke_def first_phase_def
          asynchronous_def split: conduct.splits)
    then show ?thesis
      using None async
      by (simp add: get_miss_def Let_def registry_inv_return request_start_def invoke_def)
  qed
qed

lemma registry_inv_hits: "registry_inv (w\<lparr>hits := h\<rparr>) = registry_inv w"
  by (simp add: registry_inv_def)

lemma registry_inv_resume:
  assumes "registry_inv w" and "c < length (gets w)"
  shows "registry_inv (get_resume cd c w)"
proof -
  have "registry_inv (get_miss c w)" "registry_inv (get_catch c w)"
    "registry_inv (get_catch c (w\<lparr>hits := hits w + 1\<rparr>))"
    using assms
    by (simp_all add: registry_inv_miss registry_inv_catch registry_inv_hits)
  then show ?thesis
    using assms(1)
    by (auto simp add: get_resume_def Let_def registry_inv_hits registry_inv_return
        split: sum.splits option.splits)
qed

lemma registry_inv_reg: "registry_inv w \<Longrightarrow> reg_inv (pendingRequests w) (fetches w)"
  by (simp add: registry_inv_def)

lemma registry_inv_finally:
  assumes "registry_inv w" and "j < length (fetches w)" and "in_flight (fetches w ! j)"
  shows "registry_inv (request_finally j out w)"
  using reg_inv_finally [OF registry_inv_reg [OF assms(1)] assms(2,3), of out] assms(1)
  by (simp add: registry_inv_def request_finally_def settle_def)

lemma registry_inv_request_resume:
  assumes "registry_inv w" and "j < length (fetches w)" and "f_phase (fetches w ! j) = Fetching"
  shows "registry_inv (request_resume cd j w)"
proof (cases "f_registered (fetches w ! j)")
  case False
  then show ?thesis
    using reg_inv_plain_settle [OF registry_inv_reg [OF assms(1)] assms(2)] assms(1)
    by (simp add: request_resume_def Let_def settle_def registry_inv_def)
next
  case True
  then have inf: "in_flight (fetches w ! j)"
    using assms(3) by (simp add: in_flight_def)
  show ?thesis
  proof (cases "settles (f_fetcher (fetches w ! j))")
    case (Rejected e)
    then show ?thesis
      using True registry_inv_finally [OF assms(1,2) inf]
      by (simp add: request_resume_def Let_def)
  next
    case (Resolved data)
    show ?thesis
    proof (cases "set_enter cd (redisClient w) data")
      case None
      then show ?thesis
        using True Resolved registry_inv_finally [OF assms(1,2) inf]
        by (simp add: request_resume_def Let_def)
    next
      case (Some s)
      then show ?thesis
        using True Resolved assms(1)
          reg_inv_storing [OF registry_inv_reg [OF assms(1)] assms(2) True assms(3)]
        by (simp add: request_resume_def Let_def registry_inv_def)
    qed
  qed
qed

lemma registry_inv_request_finish:
  assumes "registry_inv w" and "j < length (fetches w)"
    and "f_phase (fetches w ! j) = Storing data s"
  shows "registry_inv (request_finish j data s w)"
proof -
  have "f_registered (fetches w ! j)"
    using assms by (auto simp add: registry_inv_def reg_inv_def storing_def)
  then have inf: "in_flight (fetches w ! j)"
    using assms(3) by (simp add: in_flight_def)
  let ?w = "w\<lparr>redisClient := set_write (redisClient w) (f_key (fetches w ! j)) (f_ttl (fetches w ! j)) s\<rparr>"
  have "registry_inv ?w" using assms(1) by (simp add: registry_inv_def)
  then have "registry_inv (request_finally j (Resolved data) ?w)"
    using assms(2) inf by (intro registry_inv_finally) simp_all
  then show ?thesis by (simp add: request_finish_def Let_def)
qed

lemma registry_inv_step:
  assumes "registry_inv w" and "step cd e w = Some w'" and "well_behaved e"
  shows "registry_inv w'"
proof (cases e)
  case (Get k f ttl)
  then show ?thesis using assms registry_inv_enter by (auto simp add: well_behaved_def)
next
  case (ReadReply c)
  then show ?thesis using assms registry_inv_resume by (auto split: if_splits)
next
  case (FetchSettled j)
  then show ?thesis using assms registry_inv_request_resume by (auto split: if_splits)
next
  case (WriteReply j)
  then show ?thesis
    using assms registry_inv_request_finish by (auto split: if_splits phase.splits)
next
  case (Env g)
  then show ?thesis using assms by (auto simp add: registry_inv_def)
qed

lemma registry_inv_run:
  "registry_inv w \<Longrightarrow> list_all well_behaved es \<Longrightarrow> run cd es w = Some w' \<Longrightarrow>
   registry_inv w'"
proof (induction es arbitrary: w)
  case Nil
  then show ?case by simp
next
  case (Cons e es)
  from Cons.prems(3) obtain w1 where w1: "step cd e w = Some w1" "run cd es w1 = Some w'"
    by (auto split: option.splits)
  from Cons.prems(2) have e: "well_behaved e" and es: "list_all well_behaved es"
    by simp_all
  show ?case
    using Cons.IH [OF registry_inv_step [OF Cons.prems(1) w1(1) e] es w1(2)] .
qed

lemma registry_inv_fresh: "registry_inv (fresh rc)"
  by (simp add: registry_inv_def fresh_def reg_inv_empty)

lemma pending_enter: "pendingRequests (get_enter k f ttl w) = pendingRequests w"
  by (simp add: get_enter_def invoke_def)

lemma pending_distinct_step:
  assumes "distinct (map fst (pendingRequests w))" and "step cd e w = Some w'"
  shows "distinct (map fst (pendingRequests w'))"
proof (cases e)
  case (Get k f ttl)
  then show ?thesis using assms by (auto simp add: pending_enter)
next
  case (ReadReply c)
  then show ?thesis
    using assms
    by (auto simp add: get_resume_def get_catch_def get_miss_def return_to_def invoke_def
        request_start_def Let_def distinct_update distinct_delete
        split: sum.splits option.splits if_splits)
next
  case (FetchSettled j)
  then show ?thesis
    using assms
    by (auto simp add: request_resume_def request_finally_def settle_def Let_def
        distinct_delete split: if_splits outcome.splits option.splits)
next
  case (WriteReply j)
  then show ?thesis
    using assms
    by (auto simp add: request_finish_def request_finally_def settle_def Let_def
        distinct_delete split: if_splits phase.splits)
next
  case (Env g)
  then show ?thesis using assms by auto
qed

lemma pending_distinct_run:
  "distinct (map fst (pendingRequests w)) \<Longrightarrow> run cd es w = Some w' \<Longrightarrow>
   distinct (map fst (pendingRequests w'))"
proof (induction es arbitrary: w)
  case Nil
  then show ?case by simp
next
  case (Cons e es)
  then show ?case
    by (auto split: option.splits dest: pending_distinct_step)
qed

lemma entry_created_by_miss:
  assumes "step cd e w = Some w'" and "map_of (pendingRequests w) k = None"
    and "map_of (pendingRequests w') k \<noteq> None"
  shows "\<exists>c. e = ReadReply c \<and> c < length (gets w) \<and> g_key (gets w ! c) = k
           \<and> (client_get (redisClient w) k = Inr None
                \<or> client_get (redisClient w) k = Inr (Some []))
           \<and> map_of (pendingRequests w') k = Some (length (fetches w))"
proof (cases e)
  case (Get k' f ttl)
  then show ?thesis
    using assms by (auto simp add: pending_enter)
next
  case (ReadReply c)
  then have c: "c < length (gets w)" and w': "w' = get_resume cd c w"
    using assms(1) by (auto split: if_splits)
  show ?thesis
    using assms(2,3) c ReadReply unfolding w'
    by (auto simp add: get_resume_def get_catch_def get_miss_def return_to_def invoke_def
        request_start_def Let_def AList.update_conv' AList.delete_conv'
        split: sum.splits option.splits if_splits)
next
  case (FetchSettled j)
  then show ?thesis
    using assms
    by (auto simp add: request_resume_def request_finally_def settle_def Let_def
        AList.delete_conv' split: if_splits outcome.splits option.splits)
next
  case (WriteReply j)
  then show ?thesis
    using assms
    by (auto simp add: request_finish_def request_finally_def settle_def Let_def
        AList.delete_conv' split: if_splits phase.splits)
next
  case (Env g)
  then show ?thesis using assms by auto
qed

lemma entry_kept_by_others:
  assumes "registry_inv w" and "step cd e w = Some w'"
    and "map_of (pendingRequests w) k = Some j"
    and "e \<noteq> FetchSettled j" and "e \<noteq> WriteReply j"
  shows "map_of (pendingRequests w') k = Some j"
proof -
  from assms(1,3) have j: "j < length (fetches w)" "f_key (fetches w ! j) = k"
    "in_flight (fetches w ! j)"
    by (simp_all add: registry_inv_def reg_inv_def)
  have other: "f_key (fetches w ! j') \<noteq> k"
    if "j' < length (fetches w)" "in_flight (fetches w ! j')" "j' \<noteq> j" for j'
  proof
    assume "f_key (fetches w ! j') = k"
    moreover have "map_of (pendingRequests w) (f_key (fetches w ! j')) = Some j'"
      using assms(1) that(1,2) by (simp add: registry_inv_def reg_inv_def)
    ultimately show False using assms(3) that(3) by simp
  qed
  show ?thesis
  proof (cases e)
    case (Get k' f ttl)
    then show ?thesis using assms(2,3) by (auto simp add: pending_enter)
  next
    case (ReadReply c)
    then show ?thesis
      using assms(2,3)
      by (auto simp add: get_resume_def get_catch_def get_miss_def return_to_def invoke_def
          request_start_def Let_def AList.update_conv' AList.delete_conv'
          split: sum.splits option.splits if_splits)
  next
    case (FetchSettled j')
    then have j': "j' < length (fetches w)" "f_phase (fetches w ! j') = Fetching" "j' \<noteq> j"
      and w': "w' = request_resume cd j' w"
      using assms(2,4) by (auto split: if_splits)
    show ?thesis
    proof (cases "f_registered (fetches w ! j')")
      case False
      then show ?thesis
        using assms(3) unfolding w' by (simp add: request_resume_def Let_def settle_def)
    next
      case True
      then have "in_flight (fetches w ! j')" using j'(2) by (simp add: in_flight_def)
      then have "f_key (fetches w ! j') \<noteq> k" using other j'(1,3) by simp
      then show ?thesis
        using assms(3) True unfolding w'
        by (auto simp add: request_resume_def request_finally_def settle_def Let_def
            AList.delete_conv' split: outcome.splits option.splits)
    qed
  next
    case (WriteReply j')
    then obtain data s where j': "j' < length (fetches w)"
      "f_phase (fetches w ! j') = Storing data s" "j' \<noteq> j"
      and w': "w' = request_finish j' data s w"
      using assms(2,5) by (auto split: if_splits phase.splits)
    have "f_registered (fetches w ! j')"
      using assms(1) j'(1,2) by (auto simp add: registry_inv_def reg_inv_def storing_def)
    then have "in_flight (fetches w ! j')" using j'(2) by (simp add: in_flight_def)
    then have "f_key (fetches w ! j') \<noteq> k" using other j'(1,3) by simp
    then show ?thesis
      using assms(3) unfolding w'
      by (simp add: request_finish_def request_finally_def settle_def Let_def AList.delete_conv')
  next
    case (Env g)
    then show ?thesis using assms(2,3) by auto
  qed
qed

lemma entry_after_fetch:
  assumes "registry_inv w" and "step cd (FetchSettled j) w = Some w'"
    and "map_of (pendingRequests w) k = Some j"
  shows "(case settles (f_fetcher (fetches w ! j)) of
            Rejected err \<Rightarrow>
              map_of (pendingRequests w') k = None
              \<and> f_phase (fetches w' ! j) = Settled (Rejected err)
          | Resolved data \<Rightarrow>
              (case set_enter cd (redisClient w) data of
                 None \<Rightarrow>
                   map_of (pendingRequests w') k = None
                   \<and> f_phase (fetches w' ! j) = Settled (Resolved data)
               | Some s \<Rightarrow>
                   map_of (pendingRequests w') k = Some j
                   \<and> f_phase (fetches w' ! j) = Storing data s))"
proof -
  from assms(1,3) have j: "j < length (fetches w)" "f_key (fetches w ! j) = k"
    "f_registered (fetches w ! j)"
    by (simp_all add: registry_inv_def reg_inv_def in_flight_def)
  have w': "w' = request_resume cd j w"
    using assms(2) by (auto split: if_splits)
  show ?thesis
    unfolding w' using j assms(3)
    by (auto simp add: request_resume_def request_finally_def settle_def Let_def
        AList.delete_conv' split: outcome.splits option.splits)
qed

lemma entry_after_write:
  assumes "registry_inv w" and "step cd (WriteReply j) w = Some w'"
    and "map_of (pendingRequests w) k = Some j"
  shows "map_of (pendingRequests w') k = None
         \<and> (case f_phase (fetches w ! j) of
               Storing data s \<Rightarrow> f_phase (fetches w' ! j) = Settled (Resolved data)
             | _ \<Rightarrow> False)"
proof -
  from assms(1,3) have j: "j < length (fetches w)" "f_key (fetches w ! j) = k"
    by (simp_all add: registry_inv_def reg_inv_def)
  show ?thesis
    using assms(2) j
    by (auto simp add: request_finish_def request_finally_def settle_def Let_def
        AList.delete_conv' split: if_splits phase.splits)
qed

text \<open>
  The fetchers of the invariant return a promise. One that throws from the call itself
  makes the body of the request run its \<open>finally\<close> block before line 55 registers the
  promise: the rejected promise is registered afterwards and no event removes it. A
  later call on the key, whatever its fetcher, misses the cache, is handed that promise
  and receives the old rejection; its own fetcher is not invoked.
\<close>

lemma thrown_fetch_stays_registered:
  "run json_codec [Get ''user:7'' f_throw 600, ReadReply 0] w_empty
     = Some \<lparr>redisClient = online r_empty, pendingRequests = [(''user:7'', 0)],
             hits = 0, misses = 1,
             gets = [caller ''user:7'' f_throw 600 (Returned (Promise 0))],
             fetches = [request ''user:7'' f_throw 600 (Settled (Rejected ''no such user''))]\<rparr>
   \<and> run json_codec [Get ''user:7'' f_throw 600, ReadReply 0, FetchSettled 0] w_empty = None
   \<and> run json_codec [Get ''user:7'' f_throw 600, ReadReply 0, WriteReply 0] w_empty = None
   \<and> map_option (\<lambda>w. (pendingRequests w, length (fetches w), get_result w 1))
        (run json_codec [Get ''user:7'' f_throw 600, ReadReply 0,
                         Get ''user:7'' f_data 600, ReadReply 1] w_empty)
       = Some ([(''user:7'', 0)], 1, Some (Rejected ''no such user''))"
  by (simp add: w_empty_def r_empty_def f_throw_def f_data_def caller_def request_def
      get_result_def run_defs fetcher_defs)

text \<open>
  C2, as stated, fails in its last part: when the fetch succeeds and \<open>set\<close> writes, the
  entry is not removed when the fetch settles. After the fetcher of \<open>event:1\<close> has
  resolved, the request waits for the reply to its write and the key is still
  registered; the entry goes only with that reply.
\<close>

theorem entry_outlives_successful_fetch:
  "run json_codec [Get ''event:1'' f_data 1800, ReadReply 0, FetchSettled 0] w_empty = Some w_store
   \<and> f_phase (fetches w_store ! 0)
       = Storing (JStr ''data'') [CHR 0x22, CHR ''d'', CHR ''a'', CHR ''t'', CHR ''a'', CHR 0x22]
   \<and> map_of (pendingRequests w_store) ''event:1'' = Some 0
   \<and> map_option pendingRequests (step json_codec (WriteReply 0) w_store) = Some []"
  by (simp add: w_store_def w_wait_def w_empty_def r_empty_def f_data_def run_defs fetcher_defs)

text \<open>
  C2, amended. In every state \<open>w\<close> that any schedule reaches from a fresh service the
  registry has at most one entry per key, and for any next event an entry appears under
  a key that had none only through the reply to a read of that key that missed, and it
  is the request started right then. If the fetchers of the schedule all return a
  promise, then moreover every entry points to a request in flight for its key and every
  request in flight is the entry of its key; an entry stays through every event other
  than its own request's; and when its fetch settles the entry is removed at once if the
  fetch failed or \<open>set\<close> did not write, and otherwise stays until the reply to the
  write, which removes it.
\<close>

theorem registry_entry_lives_with_its_request:
  assumes "run cd es (fresh rc) = Some w" and "step cd e w = Some w'"
  shows "distinct (map fst (pendingRequests w))
         \<and> (\<forall>k. map_of (pendingRequests w) k = None \<and> map_of (pendingRequests w') k \<noteq> None \<longrightarrow>
                (\<exists>c. e = ReadReply c \<and> c < length (gets w) \<and> g_key (gets w ! c) = k
                   \<and> (client_get (redisClient w) k = Inr None
                        \<or> client_get (redisClient w) k = Inr (Some []))
                   \<and> map_of (pendingRequests w') k = Some (length (fetches w))))
         \<and> (list_all well_behaved es \<longrightarrow>
              (\<forall>k j. map_of (pendingRequests w) k = Some j \<longrightarrow>
                  j < length (fetches w) \<and> f_key (fetches w ! j) = k \<and> in_flight (fetches w ! j))
              \<and> (\<forall>j. j < length (fetches w) \<and> in_flight (fetches w ! j) \<longrightarrow>
                     map_of (pendingRequests w) (f_key (fetches w ! j)) = Some j)
              \<and> (\<forall>k j. map_of (pendingRequests w) k = Some j \<longrightarrow>
                     (if e = FetchSettled j then
                        (case settles (f_fetcher (fetches w ! j)) of
                           Rejected err \<Rightarrow>
                             map_of (pendingRequests w') k = None
                             \<and> f_phase (fetches w' ! j) = Settled (Rejected err)
                         | Resolved data \<Rightarrow>
                             (case set_enter cd (redisClient w) data of
                                None \<Rightarrow>
                                  map_of (pendingRequests w') k = None
                                  \<and> f_phase (fetches w' ! j) = Settled (Resolved data)
                              | Some s \<Rightarrow>
                                  map_of (pendingRequests w') k = Some j
                                  \<and> f_phase (fetches w' ! j) = Storing data s))
                      else if e = WriteReply j then
                        map_of (pendingRequests w') k = None
                        \<and> (case f_phase (fetches w ! j) of
                              Storing data s \<Rightarrow> f_phase (fetches w' ! j) = Settled (Resolved data)
                            | _ \<Rightarrow> False)
                      else map_of (pendingRequests w') k = Some j)))"
proof -
  have single: "distinct (map fst (pendingRequests w))"
    using pending_distinct_run [OF _ assms(1)] by (simp add: fresh_def)
  have created: "\<forall>k. map_of (pendingRequests w) k = None \<and> map_of (pendingRequests w') k \<noteq> None \<longrightarrow>
                (\<exists>c. e = ReadReply c \<and> c < length (gets w) \<and> g_key (gets w ! c) = k
                   \<and> (client_get (redisClient w) k = Inr None
                        \<or> client_get (redisClient w) k = Inr (Some []))
                   \<and> map_of (pendingRequests w') k = Some (length (fetches w)))"
    using entry_created_by_miss [OF assms(2)] by blast
  have rest: "(\<forall>k j. map_of (pendingRequests w) k = Some j \<longrightarrow>
                  j < length (fetches w) \<and> f_key (fetches w ! j) = k \<and> in_flight (fetches w ! j))
              \<and> (\<forall>j. j < length (fetches w) \<and> in_flight (fetches w ! j) \<longrightarrow>
                     map_of (pendingRequests w) (f_key (fetches w ! j)) = Some j)
              \<and> (\<forall>k j. map_of (pendingRequests w) k = Some j \<longrightarrow>
                     (if e = FetchSettled j then
                        (case settles (f_fetcher (fetches w ! j)) of
                           Rejected err \<Rightarrow>
                             map_of (pendingRequests w') k = None
                             \<and> f_phase (fetches w' ! j) = Settled (Rejected err)
                         | Resolved data \<Rightarrow>
                             (case set_enter cd (redisClient w) data of
                                None \<Rightarrow>
                                  map_of (pendingRequests w') k = None
                                  \<and> f_phase (fetches w' ! j) = Settled (Resolved data)
                              | Some s \<Rightarrow>
                                  map_of (pendingRequests w') k = Some j
                                  \<and> f_phase (fetches w' ! j) = Storing data s))
                      else if e = WriteReply j then
                        map_of (pendingRequests w') k = None
                        \<and> (case f_phase (fetches w ! j) of
                              Storing data s \<Rightarrow> f_phase (fetches w' ! j) = Settled (Resolved data)
                            | _ \<Rightarrow> False)
                      else map_of (pendingRequests w') k = Some j))"
    if wb: "list_all well_behaved es"
  proof -
    have inv: "registry_inv w"
      using registry_inv_run [OF registry_inv_fresh wb assms(1)] .
    then have "reg_inv (pendingRequests w) (fetches w)"
      by (simp add: registry_inv_def)
    then have static:
      "\<forall>k j. map_of (pendingRequests w) k = Some j \<longrightarrow>
          j < length (fetches w) \<and> f_key (fetches w ! j) = k \<and> in_flight (fetches w ! j)"
      "\<forall>j. j < length (fetches w) \<and> in_flight (fetches w ! j) \<longrightarrow>
          map_of (pendingRequests w) (f_key (fetches w ! j)) = Some j"
      by (simp_all add: reg_inv_def)
    have removed: "(if e = FetchSettled j then
                     (case settles (f_fetcher (fetches w ! j)) of
                        Rejected err \<Rightarrow>
                          map_of (pendingRequests w') k = None
                          \<and> f_phase (fetches w' ! j) = Settled (Rejected err)
                      | Resolved data \<Rightarrow>
                          (case set_enter cd (redisClient w) data of
                             None \<Rightarrow>
                               map_of (pendingRequests w') k = None
                               \<and> f_phase (fetches w' ! j) = Settled (Resolved data)
                           | Some s \<Rightarrow>
                               map_of (pendingRequests w') k = Some j
                               \<and> f_phase (fetches w' ! j) = Storing data s))
                   else if e = WriteReply j then
                     map_of (pendingRequests w') k = None
                     \<and> (case f_phase (fetches w ! j) of
                           Storing data s \<Rightarrow> f_phase (fetches w' ! j) = Settled (Resolved data)
                         | _ \<Rightarrow> False)
                   else map_of (pendingRequests w') k = Some j)"
      if reg: "map_of (pendingRequests w) k = Some j" for k j
    proof (cases "e = FetchSettled j")
      case True
      then show ?thesis
        using entry_after_fetch [OF inv _ reg, of cd w'] assms(2) by simp
    next
      case False
      show ?thesis
      proof (cases "e = WriteReply j")
        case True
        then show ?thesis
          using entry_after_write [OF inv _ reg, of cd w'] assms(2) by simp
      next
        case notw: False
        then show ?thesis
          using False entry_kept_by_others [OF inv assms(2) reg] by simp
      qed
    qed
    show ?thesis
      using static removed by blast
  qed
  show ?thesis
    using single created rest by blast
qed

theorem registry_entry_lives_with_its_request_witness:
  "list_all well_behaved [Get ''event:1'' f_data 1800, ReadReply 0]
   \<and> run json_codec [Get ''event:1'' f_data 1800, ReadReply 0] (fresh (online r_empty)) = Some w_wait
   \<and> step json_codec (FetchSettled 0) w_wait = Some w_store
   \<and> distinct (map fst (pendingRequests w_wait))
   \<and> map_of (pendingRequests w_wait) ''event:1'' = Some 0
   \<and> in_flight (fetches w_wait ! 0)
   \<and> set_enter json_codec (redisClient w_wait) (JStr ''data'')
       = Some [CHR 0x22, CHR ''d'', CHR ''a'', CHR ''t'', CHR ''a'', CHR 0x22]
   \<and> map_of (pendingRequests w_store) ''event:1'' = Some 0
   \<and> f_phase (fetches w_store ! 0)
       = Storing (JStr ''data'') [CHR 0x22, CHR ''d'', CHR ''a'', CHR ''t'', CHR ''a'', CHR 0x22]"
proof -
  have h0: "list_all well_behaved [Get ''event:1'' f_data 1800, ReadReply 0]"
    by (simp add: well_behaved_def asynchronous_def f_data_def)
  have h1: "run json_codec [Get ''event:1'' f_data 1800, ReadReply 0] (fresh (online r_empty))
              = Some w_wait"
    by (simp add: w_wait_def r_empty_def f_data_def run_defs fetcher_defs)
  have h2: "step json_codec (FetchSettled 0) w_wait = Some w_store"
    by (simp add: w_store_def w_wait_def r_empty_def f_data_def run_defs fetcher_defs)
  have reg: "map_of (pendingRequests w_wait) ''event:1'' = Some 0"
    by (simp add: w_wait_def)
  have st: "settles (f_fetcher (fetches w_wait ! 0)) = Resolved (JStr ''data'')"
    by (simp add: w_wait_def f_data_def fetcher_defs)
  have se: "set_enter json_codec (redisClient w_wait) (JStr ''data'')
       = Some [CHR 0x22, CHR ''d'', CHR ''a'', CHR ''t'', CHR ''a'', CHR 0x22]"
    by (simp add: w_wait_def r_empty_def run_defs)
  note T = registry_entry_lives_with_its_request [OF h1 h2]
  from T have d: "distinct (map fst (pendingRequests w_wait))" by blast
  from T h0 reg have f: "in_flight (fetches w_wait ! 0)" by blast
  from T h0 reg have "(case settles (f_fetcher (fetches w_wait ! 0)) of
                      Rejected err \<Rightarrow>
                        map_of (pendingRequests w_store) ''event:1'' = None
                        \<and> f_phase (fetches w_store ! 0) = Settled (Rejected err)
                    | Resolved data \<Rightarrow>
                        (case set_enter json_codec (redisClient w_wait) data of
                           None \<Rightarrow>
                             map_of (pendingRequests w_store) ''event:1'' = None
                             \<and> f_phase (fetches w_store ! 0) = Settled (Resolved data)
                         | Some s \<Rightarrow>
                             map_of (pendingRequests w_store) ''event:1'' = Some 0
                             \<and> f_phase (fetches w_store ! 0) = Storing data s))"
    by (auto split: if_splits)
  then have e: "map_of (pendingRequests w_store) ''event:1'' = Some 0
     \<and> f_phase (fetches w_store ! 0)
         = Storing (JStr ''data'') [CHR 0x22, CHR ''d'', CHR ''a'', CHR ''t'', CHR ''a'', CHR 0x22]"
    by (simp add: st se)
  show ?thesis
    using h0 h1 h2 d reg f se e by simp
qed

end
